theory Spec2Isabelle
  imports Main
begin

section \<open>Strings: the helpers of package strings that the tag parser calls\<close>

text \<open>Go strings are byte sequences; \<open>string\<close> is a list of bytes as well.\<close>

fun hasPrefix :: "string \<Rightarrow> string \<Rightarrow> bool" where
  "hasPrefix s [] = True"
| "hasPrefix [] (p # ps) = False"
| "hasPrefix (c # cs) (p # ps) = (c = p \<and> hasPrefix cs ps)"

text \<open>\<open>strings.Index\<close>: the position of the first occurrence, \<open>None\<close> for Go's -1.\<close>

fun indexOf :: "string \<Rightarrow> string \<Rightarrow> nat option" where
  "indexOf [] sub = (if sub = [] then Some 0 else None)"
| "indexOf (c # cs) sub =
     (if hasPrefix (c # cs) sub then Some 0 else map_option Suc (indexOf cs sub))"

definition contains :: "string \<Rightarrow> string \<Rightarrow> bool" where
  "contains s sub = (indexOf s sub \<noteq> None)"

definition hasSuffix :: "string \<Rightarrow> string \<Rightarrow> bool" where
  "hasSuffix s suf = hasPrefix (rev s) (rev suf)"

text \<open>\<open>strings.TrimSpace\<close>, on the ASCII white space (tab, line feed, vertical tab,
  form feed, carriage return, space).\<close>

definition isSpace :: "char \<Rightarrow> bool" where
  "isSpace c = (c = CHR '' '' \<or> (9 \<le> (of_char c :: nat) \<and> (of_char c :: nat) \<le> 13))"

definition trimSpace :: "string \<Rightarrow> string" where
  "trimSpace s = rev (dropWhile isSpace (rev (dropWhile isSpace s)))"

text \<open>\<open>strings.Split(value, ",")[0]\<close>: the segment before the first comma.\<close>

definition firstPart :: "string \<Rightarrow> string" where
  "firstPart s = takeWhile (\<lambda>c. c \<noteq> CHR '','') s"

section \<open>\<open>reflect.StructTag.Lookup\<close>\<close>

text \<open>The key of a key:"value" pair runs up to a space, a colon, a quote or a control
  character (\<open>tag[i] > ' ' && tag[i] != ':' && tag[i] != '"' && tag[i] != 0x7f\<close>).\<close>

definition isKeyChar :: "char \<Rightarrow> bool" where
  "isKeyChar c = ((of_char c :: nat) > 32 \<and> c \<noteq> CHR '':'' \<and> c \<noteq> CHR 0x22 \<and> (of_char c :: nat) \<noteq> 127)"

text \<open>The scan of a quoted value, started after the opening quote: a backslash skips
  the byte after it. The result is the raw text between the quotes and what follows the
  closing quote; \<open>None\<close> when the text ends before a closing quote.\<close>

fun scanQuoted :: "string \<Rightarrow> (string \<times> string) option" where
  "scanQuoted [] = None"
| "scanQuoted [c] = (if c = CHR 0x22 then Some ([], []) else None)"
| "scanQuoted (c # d # ds) =
     (if c = CHR 0x22 then Some ([], d # ds)
      else if c = CHR 0x5C then
        (case scanQuoted ds of None \<Rightarrow> None | Some (q, r) \<Rightarrow> Some (c # d # q, r))
      else
        (case scanQuoted (d # ds) of None \<Rightarrow> None | Some (q, r) \<Rightarrow> Some (c # q, r)))"

text \<open>\<open>strconv.Unquote\<close> of the quoted value. A text with no backslash and no line
  feed is returned as it is. What the library does with any other text (it decodes the
  escape sequences, and a line feed is a syntax error) is taken as the parameter \<open>esc\<close>;
  \<open>None\<close> is a syntax error.\<close>

definition unquote :: "(string \<Rightarrow> string option) \<Rightarrow> string \<Rightarrow> string option" where
  "unquote esc q =
     (if CHR 0x5C \<notin> set q \<and> CHR 0x0A \<notin> set q then Some q else esc q)"

function lookupTag :: "(string \<Rightarrow> string option) \<Rightarrow> string \<Rightarrow> string \<Rightarrow> string option" where
  "lookupTag esc key tg =
     (let t = dropWhile (\<lambda>c. c = CHR '' '') tg in
      if t = [] then None
      else let name = takeWhile isKeyChar t; r = dropWhile isKeyChar t in
        if name = [] then None
        else (case r of
            c1 # c2 # r2 \<Rightarrow>
              if c1 = CHR '':'' \<and> c2 = CHR 0x22 then
                (case scanQuoted r2 of
                   None \<Rightarrow> None
                 | Some (q, rest) \<Rightarrow>
                     if key = name then unquote esc q else lookupTag esc key rest)
              else None
          | _ \<Rightarrow> None))"
  by pat_completeness auto
termination
proof (relation "measure (\<lambda>(esc, key, tg). length tg)", goal_cases)
  case 1
  show ?case by simp
next
  case (2 esc key tg t name r c1 rs c2 r2 sq q rest)
  have shorter: "scanQuoted s = Some (q', r') \<Longrightarrow> length r' < length s" for s q' r'
    by (induction s arbitrary: q' r' rule: scanQuoted.induct)
       (auto split: if_splits option.splits)
  have "length rest < length r2"
    using 2 shorter by metis
  moreover have "length r \<le> length t"
    unfolding \<open>r = dropWhile isKeyChar t\<close> by (rule length_dropWhile_le)
  moreover have "length t \<le> length tg"
    unfolding \<open>t = dropWhile (\<lambda>c. c = CHR '' '') tg\<close> by (rule length_dropWhile_le)
  moreover have "length r = Suc (Suc (length r2))"
    using 2 by (metis length_Cons)
  ultimately show ?case by simp
qed


section \<open>Directives (struct tags)\<close>

record tag =
  tagName :: string
  tagInline :: bool
  tagPrivate :: bool

definition injectOnly :: tag where
  "injectOnly = \<lparr>tagName = [], tagInline = False, tagPrivate = False\<rparr>"

definition injectPrivate :: tag where
  "injectPrivate = \<lparr>tagName = [], tagInline = False, tagPrivate = True\<rparr>"

definition injectInline :: tag where
  "injectInline = \<lparr>tagName = [], tagInline = True, tagPrivate = False\<rparr>"

section \<open>Types, values and errors\<close>

text \<open>A \<open>reflect.Type\<close>, as far as the resolver looks at it: its kind, the name of a
  struct or interface type, the element type of a pointer. Every kind the resolver has no
  rule for (numbers, strings, slices, ...) is \<open>TBasic\<close>.\<close>

datatype ty = TStruct string | TPtr ty | TIface string | TMap string | TBasic string

text \<open>Values. A pointer is a heap cell and a path of field indices into the struct held
  there (the address of an inline struct field is a pointer into its parent). A value of
  a basic kind is abstracted to an integer that is 0 exactly for the zero value of its
  type. An interface value that is not nil boxes a dynamic type and a value.\<close>

datatype val =
    VNil
  | VPtr nat "nat list"
  | VMap
  | VBasic int
  | VStruct "val list"
  | VIface ty val

datatype error =
    MalformedDirective string
  | UnexpectedTagFormat string string
  | PreWiredObject
  | ShapeViolation
  | DuplicateType ty
  | DuplicateName string
  | MissingNamed string string
  | TypeMismatch string string
  | InlineOnNonStruct string
  | PrivateInline string
  | InlineRequired string
  | Inaccessible string
  | MapMisuse string
  | UnsupportedField string
  | PrivateInterface string
  | NoImplementation string
  | AmbiguousImplementation string nat nat
  | UnhandledNamed string
  | NilDereference
  | UnsettableField string
  | InvalidMemory

text \<open>The last four are not returned errors. \<open>UnhandledNamed\<close> is the explicit
  \<open>panic\<close> of phase 2; \<open>NilDereference\<close> is the runtime's panic on a method call through
  a nil \<open>reflect.Type\<close>, on the fields of a nil pointer and on setting a field from the
  zero \<open>reflect.Value\<close>; \<open>UnsettableField\<close> is the panic of \<open>field.Set\<close> on a field
  that is not exported. \<open>InvalidMemory\<close> is what the model answers when a pointer does
  not lead to a struct with the field asked for, which Go's memory safety excludes.\<close>

fun isPanic :: "error \<Rightarrow> bool" where
  "isPanic (UnhandledNamed n) = True"
| "isPanic NilDereference = True"
| "isPanic (UnsettableField f) = True"
| "isPanic InvalidMemory = True"
| "isPanic e = False"

section \<open>\<open>parseTagCached\<close>\<close>

definition quoteChar :: char where
  "quoteChar = CHR 0x22"

text \<open>The validation in front of the lookup (the two "malformed" patterns).\<close>

definition malformedTag :: "string \<Rightarrow> bool" where
  "malformedTag tagString =
     (if contains tagString ''inject:'' then
        if hasSuffix tagString ''inject:'' then True
        else if contains tagString (''inject:'' @ [quoteChar]) then
          (case indexOf tagString (''inject:'' @ [quoteChar]) of
             None \<Rightarrow> False
           | Some idx \<Rightarrow>
               (let remaining = drop (idx + 8) tagString in
                remaining = [] \<or>
                (\<not> contains remaining [quoteChar] \<and> \<not> contains remaining '' '')))
        else False
      else False)"

definition tagOfValue :: "string \<Rightarrow> tag" where
  "tagOfValue v =
     (if v = [] then injectOnly
      else if v = ''inline'' then injectInline
      else if v = ''private'' then injectPrivate
      else \<lparr>tagName = trimSpace (firstPart v), tagInline = False, tagPrivate = False\<rparr>)"

text \<open>The cache maps a raw tag to the parsed tag, or to \<open>None\<close> for "no inject key"
  (Go's nil \<open>*tag\<close>). An error is not cached.\<close>

type_synonym cache = "string \<rightharpoonup> tag option"

definition parseTagCached ::
  "(string \<Rightarrow> string option) \<Rightarrow> cache \<Rightarrow> string \<Rightarrow> cache \<times> (error + tag option)" where
  "parseTagCached esc c tagStr =
     (case c tagStr of
        Some cached \<Rightarrow> (c, Inr cached)
      | None \<Rightarrow>
          if malformedTag tagStr then (c, Inl (MalformedDirective tagStr))
          else (case lookupTag esc ''inject'' tagStr of
              None \<Rightarrow> (c(tagStr \<mapsto> None), Inr None)
            | Some v \<Rightarrow> (c(tagStr \<mapsto> Some (tagOfValue v)), Inr (Some (tagOfValue v)))))"


section \<open>Objects and the graph\<close>

text \<open>An \<open>Object\<close>. \<open>Value\<close> is an \<open>interface{}\<close>: nil (\<open>None\<close>) or a dynamic type with a
  value. \<open>Fields\<close> is a Go map: nil (\<open>None\<close>) or allocated, from field names to objects;
  an object is referred to by its position in the object store of the state below (a
  \<open>*Object\<close>). \<open>reflectValue\<close> is \<open>reflect.ValueOf(Value)\<close> and is read off \<open>Value\<close>.
  \<open>privateFlag\<close> is the field \<open>private\<close> of the source.\<close>

record Object =
  Value :: "(ty \<times> val) option"
  Name :: string
  Complete :: bool
  Fields :: "(string \<rightharpoonup> nat) option"
  reflectType :: "ty option"
  privateFlag :: bool
  created :: bool
  embedded :: bool

text \<open>The declaration of a struct field, as \<open>reflect.StructField\<close> and \<open>CanSet\<close> give it.\<close>

record fdecl =
  fName :: string
  fType :: ty
  fTag :: string
  fExported :: bool
  fAnonymous :: bool

text \<open>What the Go runtime knows and the resolver asks through package reflect: the
  fields of each struct type, which types implement which interface, the zero value of
  each struct type (\<open>reflect.New\<close>), and the decoding of escapes in a quoted tag value.\<close>

record env =
  fieldsOf :: "string \<Rightarrow> fdecl list"
  implements :: "ty \<Rightarrow> string \<Rightarrow> bool"
  zeroOf :: "string \<Rightarrow> val"
  unquoteEsc :: "string \<Rightarrow> string option"

text \<open>The state: the memory the values live in (\<open>heap\<close>, a cell per allocated struct),
  the objects that pointers of type \<open>*Object\<close> refer to (\<open>objs\<close>), and the fields of
  \<open>Graph\<close>. A nil map of the graph and an allocated empty one behave alike for
  \<open>unnamedType\<close>, \<open>named\<close> and \<open>tagCache\<close> (each is allocated before its first use);
  \<open>typeIndex\<close> is built when it is nil, so its being nil is kept. The logger is left out:
  it changes nothing in the graph.\<close>

record state =
  heap :: "val list"
  objs :: "Object list"
  unnamed :: "nat list"
  unnamedType :: "ty set"
  named :: "string \<rightharpoonup> nat"
  typeIndex :: "(ty \<Rightarrow> nat list) option"
  tagCache :: cache

definition emptyGraph :: "val list \<Rightarrow> state" where
  "emptyGraph h = \<lparr>heap = h, objs = [], unnamed = [], unnamedType = {}, named = Map.empty,
     typeIndex = None, tagCache = Map.empty\<rparr>"

fun isStructPtr :: "ty \<Rightarrow> bool" where
  "isStructPtr (TPtr (TStruct n)) = True"
| "isStructPtr t = False"

section \<open>\<open>Provide\<close>\<close>

text \<open>One round of the loop of \<open>Provide\<close>. The object handed in is the caller's and is
  taken to be one the graph does not hold yet; when it is accepted it becomes the next
  entry of the object store. (The round also sets \<open>reflectType\<close> of an object it then
  rejects; that object stays with the caller.) \<open>isStructPtr\<close> on the nil type of a nil
  \<open>Value\<close> panics.\<close>

definition provide1 :: "state \<Rightarrow> Object \<Rightarrow> state \<times> error option" where
  "provide1 g o0 =
     (let o1 = o0\<lparr>reflectType := map_option fst (Value o0)\<rparr> in
      if Fields o1 \<noteq> None then (g, Some PreWiredObject)
      else if Name o1 = [] then
        (case reflectType o1 of
           None \<Rightarrow> (g, Some NilDereference)
         | Some t \<Rightarrow>
             if \<not> isStructPtr t then (g, Some ShapeViolation)
             else if \<not> privateFlag o1 then
               (if t \<in> unnamedType g then (g, Some (DuplicateType t))
                else (g\<lparr>objs := objs g @ [o1], unnamed := unnamed g @ [length (objs g)],
                        unnamedType := insert t (unnamedType g)\<rparr>, None))
             else (g\<lparr>objs := objs g @ [o1], unnamed := unnamed g @ [length (objs g)]\<rparr>, None))
      else if named g (Name o1) \<noteq> None then (g, Some (DuplicateName (Name o1)))
      else (g\<lparr>objs := objs g @ [o1], named := (named g)(Name o1 \<mapsto> length (objs g))\<rparr>, None))"

text \<open>\<open>Provide(objects...)\<close>: the loop returns at the first error, with the graph as
  the rounds before it left it.\<close>

fun Provide :: "state \<Rightarrow> Object list \<Rightarrow> state \<times> error option" where
  "Provide g [] = (g, None)"
| "Provide g (o0 # os) =
     (case provide1 g o0 of
        (g', Some e) \<Rightarrow> (g', Some e)
      | (g', None) \<Rightarrow> Provide g' os)"

text \<open>A caller's object: the exported fields are the caller's to set, the unexported
  ones have their zero values.\<close>

definition newObject :: "(ty \<times> val) option \<Rightarrow> string \<Rightarrow> bool \<Rightarrow> (string \<rightharpoonup> nat) option \<Rightarrow> Object" where
  "newObject v n c f = \<lparr>Value = v, Name = n, Complete = c, Fields = f, reflectType = None,
     privateFlag = False, created = False, embedded = False\<rparr>"

text \<open>A sequence of calls of \<open>Provide\<close>, each with its batch; a call that fails leaves
  the graph as it is at the failure, and the next call goes on from there.\<close>

fun provideCalls :: "state \<Rightarrow> Object list list \<Rightarrow> state" where
  "provideCalls g [] = g"
| "provideCalls g (b # bs) = provideCalls (fst (Provide g b)) bs"


section \<open>Memory, zero values, assignability\<close>

fun getAt :: "val \<Rightarrow> nat list \<Rightarrow> val option" where
  "getAt v [] = Some v"
| "getAt (VStruct vs) (i # p) = (if i < length vs then getAt (vs ! i) p else None)"
| "getAt v (i # p) = None"

fun setAt :: "val \<Rightarrow> nat list \<Rightarrow> val \<Rightarrow> val" where
  "setAt v [] w = w"
| "setAt (VStruct vs) (i # p) w =
     (if i < length vs then VStruct (vs[i := setAt (vs ! i) p w]) else VStruct vs)"
| "setAt v (i # p) w = v"

definition load :: "val list \<Rightarrow> nat \<Rightarrow> nat list \<Rightarrow> val option" where
  "load h b p = (if b < length h then getAt (h ! b) p else None)"

definition store :: "val list \<Rightarrow> nat \<Rightarrow> nat list \<Rightarrow> val \<Rightarrow> val list" where
  "store h b p w = (if b < length h then h[b := setAt (h ! b) p w] else h)"

text \<open>\<open>isNilOrZero\<close>: nil for the pointer-like kinds, the zero of a basic kind, every
  field zero for a struct (an array is treated as a struct of its elements).\<close>

fun isNilOrZero :: "val \<Rightarrow> bool" where
  "isNilOrZero VNil = True"
| "isNilOrZero (VPtr b p) = False"
| "isNilOrZero VMap = False"
| "isNilOrZero (VBasic n) = (n = 0)"
| "isNilOrZero (VStruct vs) = (\<forall>v \<in> set vs. isNilOrZero v)"
| "isNilOrZero (VIface t v) = False"

text \<open>\<open>reflect.Type.AssignableTo\<close>: the same type, or an interface that the type
  implements.\<close>

definition assignable :: "env \<Rightarrow> ty \<Rightarrow> ty \<Rightarrow> bool" where
  "assignable E t u = (t = u \<or> (case u of TIface i \<Rightarrow> implements E t i | _ \<Rightarrow> False))"

fun isStructKind :: "ty \<Rightarrow> bool" where
  "isStructKind (TStruct n) = True"
| "isStructKind t = False"

fun isInterfaceKind :: "ty \<Rightarrow> bool" where
  "isInterfaceKind (TIface n) = True"
| "isInterfaceKind t = False"

fun isMapKind :: "ty \<Rightarrow> bool" where
  "isMapKind (TMap n) = True"
| "isMapKind t = False"

text \<open>\<open>reflect.ValueOf(existing.Value)\<close> as stored by \<open>field.Set\<close>: an interface field
  boxes the dynamic type, any other field holds the value.\<close>

definition boxFor :: "ty \<Rightarrow> ty \<times> val \<Rightarrow> val" where
  "boxFor fieldType tv = (if isInterfaceKind fieldType then VIface (fst tv) (snd tv) else snd tv)"

section \<open>The resolver's steps on the state\<close>

text \<open>A step changes the state and returns an error or nil; a loop over steps stops at
  the first error and keeps the state reached.\<close>

fun forEach :: "('a \<Rightarrow> state \<Rightarrow> state \<times> error option) \<Rightarrow> 'a list \<Rightarrow> state \<Rightarrow> state \<times> error option" where
  "forEach f [] g = (g, None)"
| "forEach f (x # xs) g =
     (case f x g of
        (g', Some e) \<Rightarrow> (g', Some e)
      | (g', None) \<Rightarrow> forEach f xs g')"

definition addDep :: "nat \<Rightarrow> string \<Rightarrow> nat \<Rightarrow> state \<Rightarrow> state" where
  "addDep oid field dep g =
     (let o0 = objs g ! oid;
          m = (case Fields o0 of None \<Rightarrow> Map.empty | Some m \<Rightarrow> m)
      in g\<lparr>objs := (objs g)[oid := o0\<lparr>Fields := Some (m(field \<mapsto> dep))\<rparr>]\<rparr>)"

definition setField :: "nat \<Rightarrow> nat list \<Rightarrow> val \<Rightarrow> state \<Rightarrow> state" where
  "setField b p v g = g\<lparr>heap := store (heap g) b p v\<rparr>"

text \<open>\<open>field.Set(reflect.ValueOf(existing.Value))\<close> followed by \<open>o.addDep\<close>.\<close>

definition assignExisting ::
  "nat \<Rightarrow> nat \<Rightarrow> nat list \<Rightarrow> fdecl \<Rightarrow> nat \<Rightarrow> state \<Rightarrow> state \<times> error option" where
  "assignExisting oid b p d eid g =
     (case Value (objs g ! eid) of
        None \<Rightarrow> (g, Some NilDereference)
      | Some tv \<Rightarrow> (addDep oid (fName d) eid (setField b p (boxFor (fType d) tv) g), None))"

text \<open>\<open>buildTypeIndex\<close>: the objects of \<open>unnamed\<close> that are not private, under their
  types, in the order of the list. (An object without a type would go under the nil key,
  which no lookup asks for.)\<close>

fun indexObjects :: "Object list \<Rightarrow> nat list \<Rightarrow> (ty \<Rightarrow> nat list) \<Rightarrow> (ty \<Rightarrow> nat list)" where
  "indexObjects os [] idx = idx"
| "indexObjects os (i # is) idx =
     (if privateFlag (os ! i) then indexObjects os is idx
      else (case reflectType (os ! i) of
              None \<Rightarrow> indexObjects os is idx
            | Some t \<Rightarrow> indexObjects os is (idx(t := idx t @ [i]))))"

definition buildTypeIndex :: "state \<Rightarrow> state" where
  "buildTypeIndex g =
     (case typeIndex g of
        Some idx \<Rightarrow> g
      | None \<Rightarrow> g\<lparr>typeIndex := Some (indexObjects (objs g) (unnamed g) (\<lambda>t. []))\<rparr>)"

text \<open>The first candidate that is not private.\<close>

fun firstShared :: "Object list \<Rightarrow> nat list \<Rightarrow> nat option" where
  "firstShared os [] = None"
| "firstShared os (i # is) = (if privateFlag (os ! i) then firstShared os is else Some i)"

text \<open>The fallback scan of \<open>unnamed\<close>: the first object that is not private and whose
  type is assignable to the field's.\<close>

fun scanAssignable :: "env \<Rightarrow> Object list \<Rightarrow> ty \<Rightarrow> nat list \<Rightarrow> error + nat option" where
  "scanAssignable E os ft [] = Inr None"
| "scanAssignable E os ft (i # is) =
     (if privateFlag (os ! i) then scanAssignable E os ft is
      else (case reflectType (os ! i) of
              None \<Rightarrow> Inl NilDereference
            | Some t \<Rightarrow> if assignable E t ft then Inr (Some i) else scanAssignable E os ft is))"


section \<open>Phase 1: \<open>populateExplicit\<close>\<close>

text \<open>The end of the loop body: \<open>reflect.New\<close> of the pointee type, \<open>Provide\<close> of the
  new object, the assignment and the dependency edge. The new object is the next entry
  of the object store.\<close>

definition createAndAssign ::
  "env \<Rightarrow> nat \<Rightarrow> nat \<Rightarrow> nat list \<Rightarrow> fdecl \<Rightarrow> bool \<Rightarrow> state \<Rightarrow> state \<times> error option" where
  "createAndAssign E oid b p d priv g =
     (case fType d of
        TPtr (TStruct n) \<Rightarrow>
          (let a = length (heap g);
               g1 = g\<lparr>heap := heap g @ [zeroOf E n]\<rparr>;
               newObj = \<lparr>Value = Some (fType d, VPtr a []), Name = [], Complete = False,
                         Fields = None, reflectType = None, privateFlag = priv,
                         created = True, embedded = False\<rparr>;
               nid = length (objs g1)
           in case provide1 g1 newObj of
                (g2, Some e) \<Rightarrow> (g2, Some e)
              | (g2, None) \<Rightarrow> (addDep oid (fName d) nid (setField b p (VPtr a []) g2), None))
      | _ \<Rightarrow> (g, Some InvalidMemory))"

text \<open>The pointer case: unless the directive is private, the type index (built on its
  first use), then the scan of \<open>unnamed\<close>, then a new object.\<close>

definition injectPointer ::
  "env \<Rightarrow> nat \<Rightarrow> nat \<Rightarrow> nat list \<Rightarrow> fdecl \<Rightarrow> tag \<Rightarrow> state \<Rightarrow> state \<times> error option" where
  "injectPointer E oid b p d tg g =
     (if \<not> tagPrivate tg then
        (let g1 = buildTypeIndex g;
             candidates = (case typeIndex g1 of None \<Rightarrow> [] | Some idx \<Rightarrow> idx (fType d))
         in case firstShared (objs g1) candidates of
              Some eid \<Rightarrow> assignExisting oid b p d eid g1
            | None \<Rightarrow>
                (case scanAssignable E (objs g1) (fType d) (unnamed g1) of
                   Inl e \<Rightarrow> (g1, Some e)
                 | Inr (Some eid) \<Rightarrow> assignExisting oid b p d eid g1
                 | Inr None \<Rightarrow> createAndAssign E oid b p d (tagPrivate tg) g1))
      else createAndAssign E oid b p d (tagPrivate tg) g)"

definition injectNamed ::
  "env \<Rightarrow> nat \<Rightarrow> nat \<Rightarrow> nat list \<Rightarrow> fdecl \<Rightarrow> tag \<Rightarrow> state \<Rightarrow> state \<times> error option" where
  "injectNamed E oid b p d tg g =
     (case named g (tagName tg) of
        None \<Rightarrow> (g, Some (MissingNamed (tagName tg) (fName d)))
      | Some eid \<Rightarrow>
          (case reflectType (objs g ! eid) of
             None \<Rightarrow> (g, Some NilDereference)
           | Some et \<Rightarrow>
               if \<not> assignable E et (fType d) then (g, Some (TypeMismatch (tagName tg) (fName d)))
               else assignExisting oid b p d eid g))"

text \<open>\<open>Provide\<close> of the address of an inline struct field, as a private object.\<close>

definition provideInline :: "nat \<Rightarrow> nat list \<Rightarrow> fdecl \<Rightarrow> state \<Rightarrow> state \<times> error option" where
  "provideInline b p d g =
     provide1 g \<lparr>Value = Some (TPtr (fType d), VPtr b p), Name = [], Complete = False,
       Fields = None, reflectType = None, privateFlag = True, created = False,
       embedded = fAnonymous d\<rparr>"

text \<open>The body of the loop of \<open>populateExplicit\<close> for field \<open>i\<close> of the struct of type
  \<open>n\<close> at \<open>(b, p)\<close>, which is the value of object \<open>oid\<close>.\<close>

definition explicitField ::
  "env \<Rightarrow> nat \<Rightarrow> nat \<Rightarrow> nat list \<Rightarrow> string \<Rightarrow> nat \<Rightarrow> state \<Rightarrow> state \<times> error option" where
  "explicitField E oid b p n i g =
     (let d = fieldsOf E n ! i;
          cr = parseTagCached (unquoteEsc E) (tagCache g) (fTag d);
          g0 = g\<lparr>tagCache := fst cr\<rparr>
      in case snd cr of
           Inl e \<Rightarrow> (g0, Some (UnexpectedTagFormat (fTag d) (fName d)))
         | Inr None \<Rightarrow> (g0, None)
         | Inr (Some tg) \<Rightarrow>
             if \<not> fExported d then (g0, Some (Inaccessible (fName d)))
             else if tagInline tg \<and> \<not> isStructKind (fType d) then
               (g0, Some (InlineOnNonStruct (fName d)))
             else (case load (heap g0) b (p @ [i]) of
                 None \<Rightarrow> (g0, Some InvalidMemory)
               | Some fv \<Rightarrow>
                   if \<not> isNilOrZero fv then (g0, None)
                   else if tagName tg \<noteq> [] then injectNamed E oid b (p @ [i]) d tg g0
                   else if isStructKind (fType d) then
                     (if tagPrivate tg then (g0, Some (PrivateInline (fName d)))
                      else if \<not> tagInline tg then (g0, Some (InlineRequired (fName d)))
                      else provideInline b (p @ [i]) d g0)
                   else if isInterfaceKind (fType d) then (g0, None)
                   else if isMapKind (fType d) then
                     (if \<not> tagPrivate tg then (g0, Some (MapMisuse (fName d)))
                      else (setField b (p @ [i]) VMap g0, None))
                   else if \<not> isStructPtr (fType d) then (g0, Some (UnsupportedField (fName d)))
                   else injectPointer E oid b (p @ [i]) d tg g0))"

text \<open>"Ignore named value types": the test in front of both loops. \<open>isStructPtr\<close> is
  only called for a named object, and panics on a nil type.\<close>

definition ignoredNamedValue :: "Object \<Rightarrow> error + bool" where
  "ignoredNamedValue o0 =
     (if Name o0 \<noteq> [] then
        (case reflectType o0 of
           None \<Rightarrow> Inl NilDereference
         | Some t \<Rightarrow> Inr (\<not> isStructPtr t))
      else Inr False)"

text \<open>\<open>o.reflectValue.Elem()\<close> with \<open>o.reflectType.Elem()\<close>: the struct the object's
  pointer leads to and the name of its type; \<open>None\<close> where \<open>NumField\<close> panics (a nil
  pointer).\<close>

definition structOf :: "Object \<Rightarrow> (nat \<times> nat list \<times> string) option" where
  "structOf o0 =
     (case reflectType o0 of
        Some (TPtr (TStruct n)) \<Rightarrow>
          (case Value o0 of
             Some (t, VPtr b p) \<Rightarrow> Some (b, p, n)
           | _ \<Rightarrow> None)
      | _ \<Rightarrow> None)"

definition populateExplicit :: "env \<Rightarrow> nat \<Rightarrow> state \<Rightarrow> state \<times> error option" where
  "populateExplicit E oid g =
     (case ignoredNamedValue (objs g ! oid) of
        Inl e \<Rightarrow> (g, Some e)
      | Inr True \<Rightarrow> (g, None)
      | Inr False \<Rightarrow>
          (case structOf (objs g ! oid) of
             None \<Rightarrow> (g, Some NilDereference)
           | Some (b, p, n) \<Rightarrow>
               forEach (explicitField E oid b p n) [0..<length (fieldsOf E n)] g))"

section \<open>Phase 2: \<open>populateUnnamedInterface\<close>\<close>

text \<open>The scan of \<open>unnamed\<close> for an interface field: the first assignable object that is
  not private is assigned at once; a second one is the error. Phase 2 does not ask
  \<open>CanSet\<close> (phase 1 has returned an error for a tagged field that is not exported), so
  \<open>field.Set\<close> panics on such a field.\<close>

fun scanInterface ::
  "env \<Rightarrow> nat \<Rightarrow> nat \<Rightarrow> nat list \<Rightarrow> fdecl \<Rightarrow> nat list \<Rightarrow> nat option \<Rightarrow> state \<Rightarrow> state \<times> error option" where
  "scanInterface E oid b p d [] found g =
     (case found of
        None \<Rightarrow> (g, Some (NoImplementation (fName d)))
      | Some f \<Rightarrow> (g, None))"
| "scanInterface E oid b p d (i # is) found g =
     (if privateFlag (objs g ! i) then scanInterface E oid b p d is found g
      else (case reflectType (objs g ! i) of
          None \<Rightarrow> (g, Some NilDereference)
        | Some t \<Rightarrow>
            if assignable E t (fType d) then
              (case found of
                 Some f \<Rightarrow> (g, Some (AmbiguousImplementation (fName d) f i))
               | None \<Rightarrow>
                   if \<not> fExported d then (g, Some (UnsettableField (fName d)))
                   else
                     (case assignExisting oid b p d i g of
                        (g', Some e) \<Rightarrow> (g', Some e)
                      | (g', None) \<Rightarrow> scanInterface E oid b p d is (Some i) g'))
            else scanInterface E oid b p d is found g))"

definition interfaceField ::
  "env \<Rightarrow> nat \<Rightarrow> nat \<Rightarrow> nat list \<Rightarrow> string \<Rightarrow> nat \<Rightarrow> state \<Rightarrow> state \<times> error option" where
  "interfaceField E oid b p n i g =
     (let d = fieldsOf E n ! i;
          cr = parseTagCached (unquoteEsc E) (tagCache g) (fTag d);
          g0 = g\<lparr>tagCache := fst cr\<rparr>
      in case snd cr of
           Inl e \<Rightarrow> (g0, Some (UnexpectedTagFormat (fTag d) (fName d)))
         | Inr None \<Rightarrow> (g0, None)
         | Inr (Some tg) \<Rightarrow>
             if \<not> isInterfaceKind (fType d) then (g0, None)
             else if tagPrivate tg then (g0, Some (PrivateInterface (fName d)))
             else (case load (heap g0) b (p @ [i]) of
                 None \<Rightarrow> (g0, Some InvalidMemory)
               | Some fv \<Rightarrow>
                   if \<not> isNilOrZero fv then (g0, None)
                   else if tagName tg \<noteq> [] then (g0, Some (UnhandledNamed (tagName tg)))
                   else scanInterface E oid b (p @ [i]) d (unnamed g0) None g0))"

definition populateUnnamedInterface :: "env \<Rightarrow> nat \<Rightarrow> state \<Rightarrow> state \<times> error option" where
  "populateUnnamedInterface E oid g =
     (case ignoredNamedValue (objs g ! oid) of
        Inl e \<Rightarrow> (g, Some e)
      | Inr True \<Rightarrow> (g, None)
      | Inr False \<Rightarrow>
          (case structOf (objs g ! oid) of
             None \<Rightarrow> (g, Some NilDereference)
           | Some (b, p, n) \<Rightarrow>
               forEach (interfaceField E oid b p n) [0..<length (fieldsOf E n)] g))"

section \<open>\<open>Populate\<close>\<close>

text \<open>Both phases pass over an object whose \<open>Complete\<close> is set.\<close>

definition visit :: "(nat \<Rightarrow> state \<Rightarrow> state \<times> error option) \<Rightarrow> nat \<Rightarrow> state \<Rightarrow> state \<times> error option" where
  "visit f oid g = (if Complete (objs g ! oid) then (g, None) else f oid g)"

text \<open>\<open>range g.named\<close> visits the entries in an order the runtime chooses: the order is
  the list of keys \<open>ks\<close>, a parameter.\<close>

fun namedObjects :: "(string \<rightharpoonup> nat) \<Rightarrow> string list \<Rightarrow> nat list" where
  "namedObjects m [] = []"
| "namedObjects m (k # ks) =
     (case m k of None \<Rightarrow> namedObjects m ks | Some i \<Rightarrow> i # namedObjects m ks)"

text \<open>The loop over \<open>unnamed\<close> by index \<open>i\<close>, which sees the objects appended on the way.
  It need not end (a struct with a private pointer field of its own type creates objects
  for ever), so it runs on fuel: \<open>None\<close> is "not yet returned".\<close>

fun worklist :: "env \<Rightarrow> nat \<Rightarrow> nat \<Rightarrow> state \<Rightarrow> (state \<times> error option) option" where
  "worklist E fuel i g =
     (if i = length (unnamed g) then Some (g, None)
      else (case fuel of
          0 \<Rightarrow> None
        | Suc fuel' \<Rightarrow>
            (case visit (populateExplicit E) (unnamed g ! i) g of
               (g', Some e) \<Rightarrow> Some (g', Some e)
             | (g', None) \<Rightarrow> worklist E fuel' (Suc i) g')))"

declare worklist.simps [simp del]

definition phase1 :: "env \<Rightarrow> string list \<Rightarrow> nat \<Rightarrow> state \<Rightarrow> (state \<times> error option) option" where
  "phase1 E ks fuel g =
     (case forEach (visit (populateExplicit E)) (namedObjects (named g) ks) g of
        (g1, Some e) \<Rightarrow> Some (g1, Some e)
      | (g1, None) \<Rightarrow> worklist E fuel 0 g1)"

definition phase2 :: "env \<Rightarrow> string list \<Rightarrow> state \<Rightarrow> state \<times> error option" where
  "phase2 E ks g =
     (case forEach (visit (populateUnnamedInterface E)) (unnamed g) g of
        (g1, Some e) \<Rightarrow> (g1, Some e)
      | (g1, None) \<Rightarrow> forEach (visit (populateUnnamedInterface E)) (namedObjects (named g1) ks) g1)"

definition Populate ::
  "env \<Rightarrow> string list \<Rightarrow> string list \<Rightarrow> nat \<Rightarrow> state \<Rightarrow> (state \<times> error option) option" where
  "Populate E ks1 ks2 fuel g =
     (case phase1 E ks1 fuel g of
        None \<Rightarrow> None
      | Some (g1, Some e) \<Rightarrow> Some (g1, Some e)
      | Some (g1, None) \<Rightarrow> Some (phase2 E ks2 g1))"

section \<open>Invariants of the graph\<close>

text \<open>The types of the unnamed objects that are not private, in the order of \<open>unnamed\<close>.\<close>

definition sharedTypes :: "state \<Rightarrow> ty option list" where
  "sharedTypes g =
     map (\<lambda>i. reflectType (objs g ! i)) (filter (\<lambda>i. \<not> privateFlag (objs g ! i)) (unnamed g))"

definition unnamedTyped :: "state \<Rightarrow> bool" where
  "unnamedTyped g =
     list_all (\<lambda>i. i < length (objs g) \<and>
        (case reflectType (objs g ! i) of None \<Rightarrow> False | Some t \<Rightarrow> isStructPtr t)) (unnamed g)"

text \<open>What \<open>Provide\<close> keeps: every entry of \<open>unnamed\<close> is an object of the store with a
  pointer-to-struct type, no two of those that are not private have the same type, and
  \<open>unnamedType\<close> holds exactly their types.\<close>

definition unnamedInv :: "state \<Rightarrow> bool" where
  "unnamedInv g =
     (unnamedTyped g \<and> distinct (sharedTypes g) \<and> Some ` unnamedType g = set (sharedTypes g))"

text \<open>\<open>Provide\<close> sets the type of every object it takes from the object's value.\<close>

definition objsTyped :: "state \<Rightarrow> bool" where
  "objsTyped g = list_all (\<lambda>o0. reflectType o0 = map_option fst (Value o0)) (objs g)"

text \<open>The type index when it is there: every entry is an object of \<open>unnamed\<close> that has
  the type it stands under. (The index may lack objects of \<open>unnamed\<close>: it is built once.)\<close>

definition indexOk :: "state \<Rightarrow> bool" where
  "indexOk g =
     (case typeIndex g of
        None \<Rightarrow> True
      | Some idx \<Rightarrow> \<forall>t. \<forall>c \<in> set (idx t). c \<in> set (unnamed g) \<and> reflectType (objs g ! c) = Some t)"

text \<open>The well-formedness of a graph that \<open>Provide\<close> and the resolver keep.\<close>

definition namedValid :: "state \<Rightarrow> bool" where
  "namedValid g = (\<forall>k j. named g k = Some j \<longrightarrow> j < length (objs g))"

definition graphOk :: "state \<Rightarrow> bool" where
  "graphOk g = (unnamedTyped g \<and> objsTyped g \<and> namedValid g \<and> indexOk g)"

section \<open>The candidates of the scans\<close>

text \<open>The unnamed objects that are not private and whose type is assignable to a field
  type, in the order of \<open>unnamed\<close>: the candidates of the scans.\<close>

definition isCandidate :: "env \<Rightarrow> Object list \<Rightarrow> ty \<Rightarrow> nat \<Rightarrow> bool" where
  "isCandidate E os ft j =
     (\<not> privateFlag (os ! j) \<and>
      (case reflectType (os ! j) of None \<Rightarrow> False | Some t \<Rightarrow> assignable E t ft))"


text \<open>The state after \<open>field.Set\<close> of the value of object \<open>c\<close> and \<open>addDep\<close>.\<close>

definition assigned :: "nat \<Rightarrow> nat \<Rightarrow> nat list \<Rightarrow> fdecl \<Rightarrow> nat \<Rightarrow> state \<Rightarrow> state" where
  "assigned oid b p d c g = fst (assignExisting oid b p d c g)"

text \<open>What a scan of the list \<open>ids\<close> needs in order not to panic: every object it looks
  at has a type and a value.\<close>

definition scanOk :: "state \<Rightarrow> nat list \<Rightarrow> bool" where
  "scanOk g ids = (\<forall>j \<in> set ids. \<not> privateFlag (objs g ! j) \<longrightarrow>
      reflectType (objs g ! j) \<noteq> None \<and> Value (objs g ! j) \<noteq> None)"

section \<open>The effects of the resolver, step by step\<close>

text \<open>Two states of an object that differ at most in the \<open>Fields\<close> map.\<close>

definition sameButFields :: "Object \<Rightarrow> Object \<Rightarrow> bool" where
  "sameButFields a b =
     (Value b = Value a \<and> Name b = Name a \<and> Complete b = Complete a \<and>
      reflectType b = reflectType a \<and> privateFlag b = privateFlag a \<and>
      created b = created a \<and> embedded b = embedded a)"

text \<open>A later state: memory and object store have not shrunk, and every object that was
  in the store is the same but for its \<open>Fields\<close> map.\<close>

definition extends :: "state \<Rightarrow> state \<Rightarrow> bool" where
  "extends g g' =
     (length (heap g) \<le> length (heap g') \<and> length (objs g) \<le> length (objs g') \<and>
      (\<forall>j < length (objs g). sameButFields (objs g ! j) (objs g' ! j)))"

text \<open>The elementary changes that the visit of object \<open>oid\<close> makes to the state: new
  entries of the tag cache, the building of the type index, a new object for a new struct,
  a new object for an inline field of the visited struct, the assignment of a field of
  the visited struct that is zero, and a dependency edge of the visited object.\<close>

inductive touch :: "nat \<Rightarrow> state \<Rightarrow> state \<Rightarrow> bool" where
  touch_cache: "tagCache g \<subseteq>\<^sub>m c \<Longrightarrow> touch oid g (g\<lparr>tagCache := c\<rparr>)"
| touch_index: "touch oid g (buildTypeIndex g)"
| touch_create:
    "provide1 (g\<lparr>heap := heap g @ [z]\<rparr>)
       \<lparr>Value = Some (ft, VPtr (length (heap g)) []), Name = [], Complete = False,
        Fields = None, reflectType = None, privateFlag = pr, created = True,
        embedded = False\<rparr> = (g', r)
     \<Longrightarrow> touch oid g g'"
| touch_inline:
    "structOf (objs g ! oid) = Some (b, p, n) \<Longrightarrow>
     provide1 g
       \<lparr>Value = Some (ft, VPtr b (p @ [i])), Name = [], Complete = False,
        Fields = None, reflectType = None, privateFlag = True, created = False,
        embedded = e\<rparr> = (g', r)
     \<Longrightarrow> touch oid g g'"
| touch_assign:
    "structOf (objs g ! oid) = Some (b, p, n) \<Longrightarrow>
     load (heap g) b (p @ [i]) = Some u \<Longrightarrow> isNilOrZero u
     \<Longrightarrow> touch oid g (setField b (p @ [i]) v g)"
| touch_dep:
    "structOf (objs g ! oid) = Some (b, p, n) \<Longrightarrow> touch oid g (addDep oid f c g)"

text \<open>The objects of the graph: the entries of \<open>unnamed\<close> and the values of \<open>named\<close>.\<close>

definition inGraph :: "state \<Rightarrow> nat \<Rightarrow> bool" where
  "inGraph g oid = (oid \<in> set (unnamed g) \<or> oid \<in> ran (named g))"

definition idsValid :: "state \<Rightarrow> bool" where
  "idsValid g = (\<forall>j. inGraph g j \<longrightarrow> j < length (objs g))"

text \<open>A run of the resolver: elementary changes, each made on the visit of an object of
  the graph whose \<open>Complete\<close> is not set.\<close>

inductive run :: "state \<Rightarrow> state \<Rightarrow> bool" where
  run_refl: "run g g"
| run_step: "run g g1 \<Longrightarrow> inGraph g1 oid \<Longrightarrow> \<not> Complete (objs g1 ! oid) \<Longrightarrow> touch oid g1 g2
     \<Longrightarrow> run g g2"



section \<open>What phase 1 leaves for phase 2\<close>

text \<open>The field at a place of the memory is there and is not zero.\<close>

definition nonZeroAt :: "val list \<Rightarrow> nat \<Rightarrow> nat list \<Rightarrow> bool" where
  "nonZeroAt h b q = (case load h b q of None \<Rightarrow> False | Some v \<Rightarrow> \<not> isNilOrZero v)"

text \<open>Field \<open>i\<close> of the struct of type \<open>n\<close> at \<open>(b, p)\<close> is settled: its tag has been parsed
  (the result is in the cache), and if there is a directive, the field is settable and, if
  the directive names an object and the field is an interface, the field is not zero.\<close>

definition settled :: "env \<Rightarrow> state \<Rightarrow> nat \<Rightarrow> nat list \<Rightarrow> string \<Rightarrow> nat \<Rightarrow> bool" where
  "settled E g b p n i =
     (case tagCache g (fTag (fieldsOf E n ! i)) of
        None \<Rightarrow> False
      | Some None \<Rightarrow> True
      | Some (Some tg) \<Rightarrow>
          fExported (fieldsOf E n ! i) \<and>
          (tagName tg \<noteq> [] \<and> isInterfaceKind (fType (fieldsOf E n ! i))
             \<longrightarrow> nonZeroAt (heap g) b (p @ [i])))"

text \<open>An object is done when the phases pass over it (it is complete, or a named value)
  or every field of its struct is settled.\<close>

definition objDone :: "env \<Rightarrow> state \<Rightarrow> nat \<Rightarrow> bool" where
  "objDone E g oid =
     (Complete (objs g ! oid) \<or> ignoredNamedValue (objs g ! oid) = Inr True \<or>
      (ignoredNamedValue (objs g ! oid) = Inr False \<and>
       (case structOf (objs g ! oid) of
          None \<Rightarrow> False
        | Some (b, p, n) \<Rightarrow> \<forall>i < length (fieldsOf E n). settled E g b p n i)))"

text \<open>The panics that Go can raise (the model's answer to an invalid pointer is none).\<close>

definition goPanic :: "error \<Rightarrow> bool" where
  "goPanic e = (isPanic e \<and> e \<noteq> InvalidMemory)"

section \<open>Example objects\<close>

text \<open>Two unwired unnamed objects, pointers to two structs of the same type \<open>T\<close>, and the
  memory that holds the two structs.\<close>

definition exHeap :: "val list" where
  "exHeap = [VStruct [], VStruct []]"

definition exT1 :: Object where
  "exT1 = newObject (Some (TPtr (TStruct ''T''), VPtr 0 [])) [] False None"

definition exT2 :: Object where
  "exT2 = newObject (Some (TPtr (TStruct ''T''), VPtr 1 [])) [] False None"

text \<open>The second one again, with a \<open>Fields\<close> map that is allocated and empty.\<close>

definition exPreWired :: Object where
  "exPreWired = newObject (Some (TPtr (TStruct ''T''), VPtr 1 [])) [] False (Some Map.empty)"

text \<open>The graph after \<open>Provide\<close> of the first one.\<close>

definition exGraph1 :: state where
  "exGraph1 = provideCalls (emptyGraph exHeap) [[exT1]]"

section \<open>An example program\<close>

text \<open>Four struct types: \<open>S\<close> with an interface field, \<open>N\<close> with an interface field
  bound to the name \<open>impl\<close>, \<open>P\<close> with four pointer fields
  (two shared, two private) and the empty \<open>A\<close>, whose pointer type implements the
  interface \<open>I\<close>.
  \<^verbatim>\<open>
  type S struct { F I `inject:""` }
  type P struct { X *A `inject:""`; Y *A `inject:"private"`; Z *A `inject:"private"`; W *A `inject:""` }
  type N struct { G I `inject:"impl"` }
  type A struct {}
  \<close>\<close>

definition tagPlain :: string where
  "tagPlain = ''inject:'' @ [quoteChar, quoteChar]"

definition tagPriv :: string where
  "tagPriv = ''inject:'' @ [quoteChar] @ ''private'' @ [quoteChar]"

definition tagNamed :: string where
  "tagNamed = ''inject:'' @ [quoteChar] @ ''impl'' @ [quoteChar]"

definition exEnv :: env where
  "exEnv = \<lparr>
     fieldsOf = (\<lambda>n.
       if n = ''S'' then
         [\<lparr>fName = ''F'', fType = TIface ''I'', fTag = tagPlain, fExported = True, fAnonymous = False\<rparr>]
       else if n = ''P'' then
         [\<lparr>fName = ''X'', fType = TPtr (TStruct ''A''), fTag = tagPlain, fExported = True, fAnonymous = False\<rparr>,
          \<lparr>fName = ''Y'', fType = TPtr (TStruct ''A''), fTag = tagPriv, fExported = True, fAnonymous = False\<rparr>,
          \<lparr>fName = ''Z'', fType = TPtr (TStruct ''A''), fTag = tagPriv, fExported = True, fAnonymous = False\<rparr>,
          \<lparr>fName = ''W'', fType = TPtr (TStruct ''A''), fTag = tagPlain, fExported = True, fAnonymous = False\<rparr>]
       else if n = ''N'' then
         [\<lparr>fName = ''G'', fType = TIface ''I'', fTag = tagNamed, fExported = True, fAnonymous = False\<rparr>]
       else []),
     implements = (\<lambda>t i. t = TPtr (TStruct ''A'') \<and> i = ''I''),
     zeroOf = (\<lambda>n. if n = ''S'' \<or> n = ''N'' then VStruct [VNil]
                    else if n = ''P'' then VStruct [VNil, VNil, VNil, VNil] else VStruct []),
     unquoteEsc = (\<lambda>s. None)\<rparr>"






definition exFuel :: nat where
  "exFuel = Suc (Suc (Suc (Suc (Suc (Suc 0)))))"





text \<open>An unnamed \<open>N\<close> at address 0 and an \<open>A\<close> at address 1 provided under the name
  \<open>impl\<close>.\<close>

definition exGraph8 :: state where
  "exGraph8 = provideCalls (emptyGraph [VStruct [VNil], VStruct []])
     [[newObject (Some (TPtr (TStruct ''N''), VPtr 0 [])) [] False None,
       newObject (Some (TPtr (TStruct ''A''), VPtr 1 [])) ''impl'' False None]]"


section \<open>Properties of the tag parser\<close>

text \<open>C7. A raw tag that holds the key \<open>inject:\<close> with an opening quote and no closing
  quote is to be an error. At the tag \<open>inject:"a b\<close> (unterminated, with a space in the
  text after the quote) \<open>parseTagCached\<close> returns no error: it answers "no directive"
  and caches that answer.\<close>

theorem parseTagCached_unterminated_with_space:
  "parseTagCached esc Map.empty (''inject:'' @ [quoteChar] @ ''a b'') =
     (Map.empty(''inject:'' @ [quoteChar] @ ''a b'' \<mapsto> None), Inr None)"
  by (simp add: parseTagCached_def malformedTag_def contains_def hasSuffix_def quoteChar_def
      isKeyChar_def Let_def)

lemma hasPrefix_iff: "hasPrefix s p = (\<exists>r. s = p @ r)"
  by (induction s p rule: hasPrefix.induct) auto

lemma indexOf_found: "(indexOf s sub \<noteq> None) = (\<exists>a r. s = a @ sub @ r)"
proof (induction s)
  case Nil
  then show ?case by simp
next
  case (Cons c cs)
  show ?case
  proof (cases "hasPrefix (c # cs) sub")
    case True
    then obtain r where "c # cs = sub @ r" by (auto simp: hasPrefix_iff)
    then have "c # cs = [] @ sub @ r" by simp
    then show ?thesis using True by (metis indexOf.simps(2) option.distinct(1))
  next
    case False
    have "(\<exists>a r. c # cs = a @ sub @ r) = (\<exists>a r. cs = a @ sub @ r)"
    proof
      assume "\<exists>a r. c # cs = a @ sub @ r"
      then obtain a r where ar: "c # cs = a @ sub @ r" by blast
      show "\<exists>a r. cs = a @ sub @ r"
      proof (cases a)
        case Nil
        then have "hasPrefix (c # cs) sub" using ar by (auto simp: hasPrefix_iff)
        then show ?thesis using False by simp
      next
        case (Cons x a')
        then have "cs = a' @ sub @ r" using ar by simp
        then show ?thesis by blast
      qed
    next
      assume "\<exists>a r. cs = a @ sub @ r"
      then obtain a r where "cs = a @ sub @ r" by blast
      then have "c # cs = (c # a) @ sub @ r" by simp
      then show "\<exists>a r. c # cs = a @ sub @ r" by blast
    qed
    then show ?thesis using False Cons.IH by simp
  qed
qed

lemma hasSuffix_iff: "hasSuffix s suf = (\<exists>a. s = a @ suf)"
proof -
  have "(\<exists>r. rev s = rev suf @ r) = (\<exists>a. s = a @ suf)"
    by (metis rev_append rev_rev_ident)
  then show ?thesis by (simp add: hasSuffix_def hasPrefix_iff)
qed

text \<open>What the validation does reject, for a tag that is not in the cache: a tag that
  ends at \<open>inject:\<close>, and a tag \<open>inject:"...\<close> whose text after the opening quote has
  neither a quote nor a space.\<close>

lemma parseTagCached_dangling:
  assumes "hasSuffix s ''inject:''" "c s = None"
  shows "parseTagCached esc c s = (c, Inl (MalformedDirective s))"
proof -
  obtain a where "s = a @ ''inject:''" using assms(1) by (auto simp: hasSuffix_iff)
  then have "s = a @ ''inject:'' @ []" by simp
  then have "contains s ''inject:''" unfolding contains_def indexOf_found by blast
  then have "malformedTag s" using assms(1) by (simp add: malformedTag_def)
  then show ?thesis using assms(2) by (simp add: parseTagCached_def)
qed

lemma parseTagCached_unterminated:
  assumes "quoteChar \<notin> set rest" "CHR '' '' \<notin> set rest" "c (''inject:'' @ [quoteChar] @ rest) = None"
  shows "parseTagCached esc c (''inject:'' @ [quoteChar] @ rest)
         = (c, Inl (MalformedDirective (''inject:'' @ [quoteChar] @ rest)))"
proof -
  let ?s = "''inject:'' @ [quoteChar] @ rest"
  have nq: "\<not> contains rest [quoteChar]"
  proof
    assume "contains rest [quoteChar]"
    then obtain a r where "rest = a @ [quoteChar] @ r" unfolding contains_def indexOf_found by blast
    then show False using assms(1) by simp
  qed
  have ns: "\<not> contains rest '' ''"
  proof
    assume "contains rest '' ''"
    then obtain a r where "rest = a @ '' '' @ r" unfolding contains_def indexOf_found by blast
    then show False using assms(2) by simp
  qed
  have "malformedTag ?s"
    using nq ns by (simp add: malformedTag_def contains_def hasSuffix_def quoteChar_def Let_def)
  then show ?thesis using assms(3) by (simp add: parseTagCached_def)
qed

section \<open>Properties of \<open>Provide\<close>\<close>

lemma provide1_error_same: "provide1 g o0 = (g', Some e) \<Longrightarrow> g' = g"
  by (auto simp: provide1_def Let_def split: if_splits option.splits)

text \<open>C6, as the code has it. \<open>Provide\<close> rejects an object with the pre-wired error exactly
  when its \<open>Fields\<close> map is not nil, whatever the map holds: a nil map is never rejected by
  this rule, an allocated map always is.\<close>

theorem provide1_prewired_iff_fields_not_nil:
  "(snd (provide1 g o0) = Some PreWiredObject) = (Fields o0 \<noteq> None)"
  by (auto simp: provide1_def Let_def split: option.splits)

text \<open>C6, as the claim states it, fails: an object whose \<open>Fields\<close> map is allocated and
  holds no entry is rejected as pre-wired.\<close>

theorem provide1_empty_fields_rejected:
  "dom (the (Fields (newObject (Some (TPtr (TStruct ''T''), VPtr 0 [])) [] False (Some Map.empty)))) = {}
   \<and> provide1 (emptyGraph [VStruct []])
        (newObject (Some (TPtr (TStruct ''T''), VPtr 0 [])) [] False (Some Map.empty))
      = (emptyGraph [VStruct []], Some PreWiredObject)"
  by (simp add: provide1_def newObject_def)

text \<open>C5, as the code has it. When \<open>Provide\<close> returns an error, the graph is the one that
  the objects of the batch in front of the rejected object left: these have been provided
  with success and stay in the graph, and the round of the rejected object changes
  nothing.\<close>

theorem Provide_error_keeps_prefix:
  "snd (Provide g os) = Some e \<Longrightarrow>
   \<exists>k < length os. Provide g (take k os) = (fst (Provide g os), None)
       \<and> provide1 (fst (Provide g os)) (os ! k) = (fst (Provide g os), Some e)"
proof (induction os arbitrary: g)
  case Nil
  then show ?case by simp
next
  case (Cons a os)
  show ?case
  proof (cases "provide1 g a")
    case (Pair g' r)
    show ?thesis
    proof (cases r)
      case None
      with Pair Cons.prems have "snd (Provide g' os) = Some e" by simp
      from Cons.IH[OF this] obtain k where k: "k < length os"
        "Provide g' (take k os) = (fst (Provide g' os), None)"
        "provide1 (fst (Provide g' os)) (os ! k) = (fst (Provide g' os), Some e)" by blast
      have "Suc k < length (a # os)" using k by simp
      moreover have "Provide g (take (Suc k) (a # os)) = (fst (Provide g (a # os)), None)"
        using k Pair None by simp
      moreover have "provide1 (fst (Provide g (a # os))) ((a # os) ! Suc k)
          = (fst (Provide g (a # os)), Some e)"
        using k Pair None by simp
      ultimately show ?thesis by blast
    next
      case (Some e')
      have same: "g' = g" using Pair Some by (simp add: provide1_error_same)
      with Pair Some Cons.prems have "e' = e" by simp
      then have "Provide g (take 0 (a # os)) = (fst (Provide g (a # os)), None)"
        "provide1 (fst (Provide g (a # os))) ((a # os) ! 0) = (fst (Provide g (a # os)), Some e)"
        using Pair Some same by simp_all
      then show ?thesis by (metis length_greater_0_conv list.distinct(1))
    qed
  qed
qed

theorem Provide_error_keeps_prefix_witness:
  "snd (Provide (emptyGraph exHeap) [exT1, exT2]) = Some (DuplicateType (TPtr (TStruct ''T'')))
   \<and> (\<exists>k < length [exT1, exT2].
         Provide (emptyGraph exHeap) (take k [exT1, exT2])
           = (fst (Provide (emptyGraph exHeap) [exT1, exT2]), None)
       \<and> provide1 (fst (Provide (emptyGraph exHeap) [exT1, exT2])) ([exT1, exT2] ! k)
           = (fst (Provide (emptyGraph exHeap) [exT1, exT2]), Some (DuplicateType (TPtr (TStruct ''T'')))))"
proof -
  have h: "snd (Provide (emptyGraph exHeap) [exT1, exT2]) = Some (DuplicateType (TPtr (TStruct ''T'')))"
    by (simp add: provide1_def exT1_def exT2_def newObject_def emptyGraph_def)
  from Provide_error_keeps_prefix [OF h] h show ?thesis by blast
qed

text \<open>C5, as the claim states it, fails: a batch of two objects of one type is rejected at
  the second object, and the first one is in the graph after the call.\<close>

theorem Provide_batch_not_atomic:
  "snd (Provide (emptyGraph exHeap) [exT1, exT2]) = Some (DuplicateType (TPtr (TStruct ''T'')))
   \<and> unnamed (emptyGraph exHeap) = []
   \<and> unnamed (fst (Provide (emptyGraph exHeap) [exT1, exT2])) = [0]
   \<and> unnamedType (emptyGraph exHeap) = {}
   \<and> unnamedType (fst (Provide (emptyGraph exHeap) [exT1, exT2])) = {TPtr (TStruct ''T'')}"
  by (simp add: provide1_def exT1_def exT2_def newObject_def emptyGraph_def)

lemma provide1_cases:
  assumes p: "provide1 g o0 = (g', r)"
  obtains (rejected) e where "r = Some e" "g' = g"
  | (unnamed) t where "r = None" "Name o0 = []" "Fields o0 = None"
      "map_option fst (Value o0) = Some t" "isStructPtr t"
      "\<not> privateFlag o0 \<Longrightarrow> t \<notin> unnamedType g"
      "g' = g\<lparr>objs := objs g @ [o0\<lparr>reflectType := Some t\<rparr>],
               unnamed := unnamed g @ [length (objs g)],
               unnamedType := (if privateFlag o0 then unnamedType g else insert t (unnamedType g))\<rparr>"
  | (named) "r = None" "Name o0 \<noteq> []" "Fields o0 = None" "named g (Name o0) = None"
      "g' = g\<lparr>objs := objs g @ [o0\<lparr>reflectType := map_option fst (Value o0)\<rparr>],
               named := (named g)(Name o0 \<mapsto> length (objs g))\<rparr>"
proof (cases r)
  case (Some e)
  then have "g' = g" using p by (simp add: provide1_error_same)
  with Some show ?thesis by (rule rejected)
next
  case None
  have f: "Fields o0 = None"
    using p None by (simp add: provide1_def Let_def split: if_splits)
  show ?thesis
  proof (cases "Name o0 = []")
    case True
    obtain t where t: "map_option fst (Value o0) = Some t"
      using p None f True by (cases "map_option fst (Value o0)") (simp_all add: provide1_def Let_def)
    have sp: "isStructPtr t"
      using p None f True t by (simp add: provide1_def Let_def split: if_splits)
    have nm: "t \<notin> unnamedType g" if "\<not> privateFlag o0"
      using p None f True t sp that by (simp add: provide1_def Let_def split: if_splits)
    have "g' = g\<lparr>objs := objs g @ [o0\<lparr>reflectType := Some t\<rparr>],
               unnamed := unnamed g @ [length (objs g)],
               unnamedType := (if privateFlag o0 then unnamedType g else insert t (unnamedType g))\<rparr>"
      using p None f True t sp by (simp add: provide1_def Let_def split: if_splits)
    with None True f t sp nm show ?thesis by (rule unnamed)
  next
    case False
    have nn: "named g (Name o0) = None"
      using p None f False by (simp add: provide1_def Let_def split: if_splits)
    have "g' = g\<lparr>objs := objs g @ [o0\<lparr>reflectType := map_option fst (Value o0)\<rparr>],
               named := (named g)(Name o0 \<mapsto> length (objs g))\<rparr>"
      using p None f False nn by (simp add: provide1_def Let_def)
    with None False f nn show ?thesis by (rule named)
  qed
qed

lemma sharedTypes_append:
  assumes "unnamedTyped g" "objs g' = objs g @ [o1]" "unnamed g' = unnamed g @ us"
  shows "sharedTypes g' = sharedTypes g @
     map (\<lambda>i. reflectType (objs g' ! i)) (filter (\<lambda>i. \<not> privateFlag (objs g' ! i)) us)"
proof -
  have lt: "\<forall>i \<in> set (unnamed g). i < length (objs g)"
    using assms by (auto simp: unnamedTyped_def list_all_iff)
  have "filter (\<lambda>i. \<not> privateFlag ((objs g @ [o1]) ! i)) (unnamed g)
        = filter (\<lambda>i. \<not> privateFlag (objs g ! i)) (unnamed g)"
    using lt by (intro filter_cong) (auto simp: nth_append)
  moreover have "map (\<lambda>i. reflectType ((objs g @ [o1]) ! i)) (filter (\<lambda>i. \<not> privateFlag (objs g ! i)) (unnamed g))
        = map (\<lambda>i. reflectType (objs g ! i)) (filter (\<lambda>i. \<not> privateFlag (objs g ! i)) (unnamed g))"
    using lt by (intro map_cong) (auto simp: nth_append)
  ultimately show ?thesis using assms(2,3) by (simp add: sharedTypes_def)
qed

lemma unnamedTyped_append:
  assumes "unnamedTyped g" "objs g' = objs g @ [o1]" "unnamed g' = unnamed g @ us"
    "\<forall>i \<in> set us. i = length (objs g) \<and> (\<exists>t. reflectType o1 = Some t \<and> isStructPtr t)"
  shows "unnamedTyped g'"
  using assms by (auto simp: unnamedTyped_def list_all_iff nth_append split: option.splits)

lemma provide1_unnamedInv:
  assumes p: "provide1 g o0 = (g', r)" and inv: "unnamedInv g"
  shows "unnamedInv g'"
proof -
  have ut: "unnamedTyped g" and di: "distinct (sharedTypes g)"
    and ty: "Some ` unnamedType g = set (sharedTypes g)"
    using inv by (simp_all add: unnamedInv_def)
  from p show ?thesis
  proof (cases rule: provide1_cases)
    case (rejected e)
    then show ?thesis using inv by simp
  next
    case (unnamed t)
    let ?o1 = "o0\<lparr>reflectType := Some t\<rparr>"
    have ob: "objs g' = objs g @ [?o1]" and un: "unnamed g' = unnamed g @ [length (objs g)]"
      using unnamed(7) by simp_all
    have st: "sharedTypes g' = sharedTypes g @ (if privateFlag o0 then [] else [Some t])"
      using sharedTypes_append[OF ut ob un] ob by simp
    have ut': "unnamedTyped g'"
      using unnamedTyped_append[OF ut ob un] unnamed(5) by simp
    have "Some t \<notin> set (sharedTypes g)" if "\<not> privateFlag o0"
      using unnamed(6)[OF that] ty by auto
    then have di': "distinct (sharedTypes g')" using st di by auto
    have uty: "unnamedType g' = (if privateFlag o0 then unnamedType g else insert t (unnamedType g))"
      unfolding unnamed(7) by simp
    have "Some ` unnamedType g' = set (sharedTypes g')"
    proof (cases "privateFlag o0")
      case True
      then show ?thesis using uty st ty by simp
    next
      case False
      then show ?thesis using uty st ty by simp
    qed
    then show ?thesis using ut' di' by (simp add: unnamedInv_def)
  next
    case named
    let ?o1 = "o0\<lparr>reflectType := map_option fst (Value o0)\<rparr>"
    have ob: "objs g' = objs g @ [?o1]" and un: "unnamed g' = unnamed g @ []"
      and uty: "unnamedType g' = unnamedType g"
      using named(5) by simp_all
    have st: "sharedTypes g' = sharedTypes g"
      using sharedTypes_append[OF ut ob un] by simp
    have ut': "unnamedTyped g'"
      using unnamedTyped_append[OF ut ob un] by simp
    show ?thesis using ut' st di ty uty by (simp add: unnamedInv_def)
  qed
qed

lemma Provide_unnamedInv:
  "Provide g os = (g', r) \<Longrightarrow> unnamedInv g \<Longrightarrow> unnamedInv g'"
proof (induction os arbitrary: g)
  case Nil then show ?case by simp
next
  case (Cons a os)
  obtain g1 r1 where p: "provide1 g a = (g1, r1)" by (cases "provide1 g a")
  have i1: "unnamedInv g1" using provide1_unnamedInv[OF p Cons.prems(2)] .
  show ?case
  proof (cases r1)
    case None
    with p Cons.prems(1) have "Provide g1 os = (g', r)" by simp
    from Cons.IH[OF this i1] show ?thesis .
  next
    case (Some e)
    with p Cons.prems(1) have "g' = g1" by simp
    with i1 show ?thesis by simp
  qed
qed

lemma provideCalls_unnamedInv:
  "unnamedInv g \<Longrightarrow> unnamedInv (provideCalls g bs)"
proof (induction bs arbitrary: g)
  case Nil then show ?case by simp
next
  case (Cons b bs)
  have "unnamedInv (fst (Provide g b))"
    using Provide_unnamedInv[of g b "fst (Provide g b)" "snd (Provide g b)"] Cons.prems by simp
  then show ?case using Cons.IH by simp
qed

lemma emptyGraph_unnamedInv: "unnamedInv (emptyGraph h)"
  by (simp add: unnamedInv_def emptyGraph_def sharedTypes_def unnamedTyped_def)

lemma provide1_duplicate:
  assumes inv: "unnamedInv g"
    and ex: "i \<in> set (unnamed g)" "\<not> privateFlag (objs g ! i)" "reflectType (objs g ! i) = Some t"
    and o0: "Value o0 = Some (t, v)" "Name o0 = []" "\<not> privateFlag o0"
  shows "provide1 g o0 = (g, Some (if Fields o0 = None then DuplicateType t else PreWiredObject))"
proof -
  have "Some t \<in> set (sharedTypes g)" using ex by (force simp: sharedTypes_def)
  then have mem: "t \<in> unnamedType g" using inv by (auto simp: unnamedInv_def)
  have "isStructPtr t" using inv ex
    by (auto simp: unnamedInv_def unnamedTyped_def list_all_iff split: option.splits)
  then show ?thesis using mem o0 by (simp add: provide1_def Let_def)
qed

text \<open>C4, as the code has it. After any sequence of calls of \<open>Provide\<close> on an empty
  graph, no two unnamed objects of the graph that are not private have the same type; and
  to provide one more unnamed, not private object whose type is that of such an object of
  the graph fails and leaves the graph as it is, whichever of the two came first: with the
  duplicate-type error when the object's \<open>Fields\<close> map is nil, and with the pre-wired
  error, the check in front, when it is not.\<close>

theorem Provide_duplicate_type:
  assumes "g = provideCalls (emptyGraph h) bs"
  shows "distinct (sharedTypes g) \<and>
    (\<forall>i o0 t v. i \<in> set (unnamed g) \<and> \<not> privateFlag (objs g ! i) \<and> reflectType (objs g ! i) = Some t
        \<and> Value o0 = Some (t, v) \<and> Name o0 = [] \<and> \<not> privateFlag o0
      \<longrightarrow> Provide g [o0] = (g, Some (if Fields o0 = None then DuplicateType t else PreWiredObject)))"
proof -
  have inv: "unnamedInv g" using assms provideCalls_unnamedInv[OF emptyGraph_unnamedInv] by simp
  then have "distinct (sharedTypes g)" by (simp add: unnamedInv_def)
  moreover have "Provide g [o0] = (g, Some (if Fields o0 = None then DuplicateType t else PreWiredObject))"
    if "i \<in> set (unnamed g)" "\<not> privateFlag (objs g ! i)" "reflectType (objs g ! i) = Some t"
      "Value o0 = Some (t, v)" "Name o0 = []" "\<not> privateFlag o0" for i o0 t v
    using provide1_duplicate[OF inv that] by simp
  ultimately show ?thesis by blast
qed

lemma exGraph1_eval:
  "exGraph1 =
     \<lparr>heap = exHeap, objs = [exT1\<lparr>reflectType := Some (TPtr (TStruct ''T''))\<rparr>], unnamed = [0],
      unnamedType = {TPtr (TStruct ''T'')}, named = Map.empty, typeIndex = None,
      tagCache = Map.empty\<rparr>"
  by (simp add: exGraph1_def provide1_def exT1_def newObject_def emptyGraph_def)

theorem Provide_duplicate_type_witness:
  "exGraph1 = provideCalls (emptyGraph exHeap) [[exT1]]
   \<and> distinct (sharedTypes exGraph1)
   \<and> Provide exGraph1 [exT2] = (exGraph1, Some (DuplicateType (TPtr (TStruct ''T''))))"
proof -
  have a: "0 \<in> set (unnamed exGraph1)" "\<not> privateFlag (objs exGraph1 ! 0)"
    "reflectType (objs exGraph1 ! 0) = Some (TPtr (TStruct ''T''))"
    unfolding exGraph1_eval by (simp_all add: exT1_def newObject_def)
  have b: "Value exT2 = Some (TPtr (TStruct ''T''), VPtr 1 [])" "Name exT2 = []"
    "\<not> privateFlag exT2" "Fields exT2 = None"
    by (simp_all add: exT2_def newObject_def)
  note th = Provide_duplicate_type [OF exGraph1_def]
  from th have d: "distinct (sharedTypes exGraph1)" by (rule conjunct1)
  from th have all: "\<forall>i o0 t v. i \<in> set (unnamed exGraph1) \<and> \<not> privateFlag (objs exGraph1 ! i)
        \<and> reflectType (objs exGraph1 ! i) = Some t
        \<and> Value o0 = Some (t, v) \<and> Name o0 = [] \<and> \<not> privateFlag o0
      \<longrightarrow> Provide exGraph1 [o0]
          = (exGraph1, Some (if Fields o0 = None then DuplicateType t else PreWiredObject))"
    by (rule conjunct2)
  from all a b(1,2,3)
  have "Provide exGraph1 [exT2]
      = (exGraph1, Some (if Fields exT2 = None then DuplicateType (TPtr (TStruct ''T'')) else PreWiredObject))"
    by blast
  then have "Provide exGraph1 [exT2] = (exGraph1, Some (DuplicateType (TPtr (TStruct ''T''))))"
    using b(4) by simp
  with d exGraph1_def show ?thesis by simp
qed

text \<open>C4, as the claim states it, fails: the second object of the same type is rejected,
  but with the pre-wired error when it comes with an allocated \<open>Fields\<close> map.\<close>

theorem Provide_duplicate_prewired:
  "unnamed exGraph1 = [0]
   \<and> reflectType (objs exGraph1 ! 0) = Some (TPtr (TStruct ''T''))
   \<and> privateFlag (objs exGraph1 ! 0) = False
   \<and> Value exPreWired = Some (TPtr (TStruct ''T''), VPtr 1 [])
   \<and> Name exPreWired = [] \<and> privateFlag exPreWired = False
   \<and> snd (Provide exGraph1 [exPreWired]) = Some PreWiredObject
   \<and> snd (Provide exGraph1 [exPreWired]) \<noteq> Some (DuplicateType (TPtr (TStruct ''T'')))"
  unfolding exGraph1_eval
  by (simp add: provide1_def exT1_def exPreWired_def newObject_def)

section \<open>Assignments: what \<open>field.Set\<close> and \<open>addDep\<close> change\<close>

lemma addDep_fields [simp]:
  "heap (addDep oid f c g) = heap g" "unnamed (addDep oid f c g) = unnamed g"
  "named (addDep oid f c g) = named g" "typeIndex (addDep oid f c g) = typeIndex g"
  "tagCache (addDep oid f c g) = tagCache g" "unnamedType (addDep oid f c g) = unnamedType g"
  "length (objs (addDep oid f c g)) = length (objs g)"
  by (simp_all add: addDep_def Let_def)

lemma nth_list_update_any:
  "(xs[i := x]) ! j = (if i = j \<and> i < length xs then x else xs ! j)"
  by (cases "i < length xs") (auto simp: nth_list_update list_update_beyond)

lemma addDep_objs:
  "objs (addDep oid f c g) =
     (objs g)[oid := (objs g ! oid)\<lparr>Fields :=
        Some ((case Fields (objs g ! oid) of None \<Rightarrow> Map.empty | Some m \<Rightarrow> m)(f \<mapsto> c))\<rparr>]"
  by (simp add: addDep_def Let_def)

lemma addDep_nth:
  "privateFlag (objs (addDep oid f c g) ! j) = privateFlag (objs g ! j)"
  "reflectType (objs (addDep oid f c g) ! j) = reflectType (objs g ! j)"
  "Value (objs (addDep oid f c g) ! j) = Value (objs g ! j)"
  "Name (objs (addDep oid f c g) ! j) = Name (objs g ! j)"
  "Complete (objs (addDep oid f c g) ! j) = Complete (objs g ! j)"
  "created (objs (addDep oid f c g) ! j) = created (objs g ! j)"
  "embedded (objs (addDep oid f c g) ! j) = embedded (objs g ! j)"
  by (simp_all add: addDep_objs nth_list_update_any)


lemma setField_fields [simp]:
  "heap (setField b p v g) = store (heap g) b p v" "objs (setField b p v g) = objs g"
  "unnamed (setField b p v g) = unnamed g" "named (setField b p v g) = named g"
  "typeIndex (setField b p v g) = typeIndex g" "tagCache (setField b p v g) = tagCache g"
  "unnamedType (setField b p v g) = unnamedType g"
  by (simp_all add: setField_def)

lemma getAt_setAt: "getAt v p = Some u \<Longrightarrow> getAt (setAt v p w) p = Some w"
  by (induction v p arbitrary: u rule: getAt.induct) (auto split: if_splits)

lemma load_store: "load h b p = Some u \<Longrightarrow> load (store h b p w) b p = Some w"
  by (auto simp: load_def store_def getAt_setAt split: if_splits)

lemma isCandidate_cong:
  "privateFlag (os' ! j) = privateFlag (os ! j) \<Longrightarrow> reflectType (os' ! j) = reflectType (os ! j)
   \<Longrightarrow> isCandidate E os' ft j = isCandidate E os ft j"
  by (simp add: isCandidate_def)

lemma assigned_eq:
  "Value (objs g ! c) = Some tv \<Longrightarrow>
   assignExisting oid b p d c g = (addDep oid (fName d) c (setField b p (boxFor (fType d) tv) g), None)"
  by (simp add: assignExisting_def)

lemma assignExisting_nth:
  assumes "assignExisting oid b p d c g = (g', r)"
  shows "privateFlag (objs g' ! j) = privateFlag (objs g ! j)"
    "reflectType (objs g' ! j) = reflectType (objs g ! j)"
    "Value (objs g' ! j) = Value (objs g ! j)"
    "unnamed g' = unnamed g" "length (objs g') = length (objs g)"
  using assms by (auto simp: assignExisting_def addDep_nth split: option.splits)

lemma scanInterface_found:
  assumes "scanOk g ids"
  shows "scanInterface E oid b p d ids (Some f) g =
     (case filter (isCandidate E (objs g) (fType d)) ids of
        [] \<Rightarrow> (g, None)
      | c # cs \<Rightarrow> (g, Some (AmbiguousImplementation (fName d) f c)))"
  using assms
proof (induction ids)
  case Nil
  then show ?case by simp
next
  case (Cons j ids)
  then have ok: "scanOk g ids" by (simp add: scanOk_def)
  show ?case
  proof (cases "privateFlag (objs g ! j)")
    case True
    then show ?thesis using Cons.IH[OF ok] by (simp add: isCandidate_def)
  next
    case False
    then obtain t where t: "reflectType (objs g ! j) = Some t"
      using Cons.prems by (auto simp: scanOk_def)
    show ?thesis
      using False t Cons.IH[OF ok] by (simp add: isCandidate_def)
  qed
qed

lemma scanInterface_none:
  assumes "scanOk g ids" and ex: "fExported d"
  shows "scanInterface E oid b p d ids None g =
     (case filter (isCandidate E (objs g) (fType d)) ids of
        [] \<Rightarrow> (g, Some (NoImplementation (fName d)))
      | [c] \<Rightarrow> (assigned oid b p d c g, None)
      | c # c' # cs \<Rightarrow> (assigned oid b p d c g, Some (AmbiguousImplementation (fName d) c c')))"
  using assms
proof (induction ids)
  case Nil
  then show ?case by simp
next
  case (Cons j ids)
  then have ok: "scanOk g ids" by (simp add: scanOk_def)
  show ?case
  proof (cases "isCandidate E (objs g) (fType d) j")
    case False
    show ?thesis
    proof (cases "privateFlag (objs g ! j)")
      case True
      then show ?thesis using Cons.IH[OF ok ex] False by simp
    next
      case np: False
      then obtain t where t: "reflectType (objs g ! j) = Some t"
        using Cons.prems by (auto simp: scanOk_def)
      then have "\<not> assignable E t (fType d)" using False np by (simp add: isCandidate_def)
      then show ?thesis using Cons.IH[OF ok ex] False np t by simp
    qed
  next
    case True
    then have np: "\<not> privateFlag (objs g ! j)" by (simp add: isCandidate_def)
    obtain t where t: "reflectType (objs g ! j) = Some t" and asg: "assignable E t (fType d)"
      using True by (auto simp: isCandidate_def split: option.splits)
    obtain tv where tv: "Value (objs g ! j) = Some tv"
      using Cons.prems np by (auto simp: scanOk_def)
    let ?g' = "assigned oid b p d j g"
    have ae: "assignExisting oid b p d j g = (?g', None)"
      using tv by (simp add: assigned_def assignExisting_def)
    have ok': "scanOk ?g' ids"
      using ok by (simp add: scanOk_def assignExisting_nth[OF ae])
    have same: "filter (isCandidate E (objs ?g') (fType d)) ids
              = filter (isCandidate E (objs g) (fType d)) ids"
      by (intro filter_cong refl isCandidate_cong) (simp_all add: assignExisting_nth[OF ae])
    have "scanInterface E oid b p d (j # ids) None g = scanInterface E oid b p d ids (Some j) ?g'"
      using np t asg ae ex by simp
    also have "\<dots> = (case filter (isCandidate E (objs g) (fType d)) ids of
        [] \<Rightarrow> (?g', None)
      | c # cs \<Rightarrow> (?g', Some (AmbiguousImplementation (fName d) j c)))"
      using scanInterface_found[OF ok'] same by simp
    finally show ?thesis using True by (simp split: list.splits)
  qed
qed

section \<open>Phase 2: the resolution of an interface field\<close>

lemma scanOk_unnamed:
  assumes "unnamedTyped g" "objsTyped g"
  shows "scanOk g (unnamed g)"
proof -
  have "reflectType (objs g ! j) \<noteq> None \<and> Value (objs g ! j) \<noteq> None" if "j \<in> set (unnamed g)" for j
  proof -
    have lt: "j < length (objs g)" and rt: "reflectType (objs g ! j) \<noteq> None"
      using assms(1) that by (auto simp: unnamedTyped_def list_all_iff split: option.splits)
    have "reflectType (objs g ! j) = map_option fst (Value (objs g ! j))"
      using assms(2) lt by (simp add: objsTyped_def list_all_length)
    with rt show ?thesis by auto
  qed
  then show ?thesis by (simp add: scanOk_def)
qed

lemma scanOk_tagCache [simp]: "scanOk (g\<lparr>tagCache := c\<rparr>) ids = scanOk g ids"
  by (simp add: scanOk_def)





lemma parse_tagPriv:
  "parseTagCached esc Map.empty tagPriv = (Map.empty(tagPriv \<mapsto> Some injectPrivate), Inr (Some injectPrivate))"
  by (simp add: parseTagCached_def malformedTag_def contains_def hasSuffix_def quoteChar_def
      isKeyChar_def Let_def tagPriv_def tagOfValue_def unquote_def)



section \<open>Phase 1: pointer fields\<close>

lemma load_append: "load h b q = Some u \<Longrightarrow> load (h @ xs) b q = Some u"
  by (auto simp: load_def nth_append split: if_splits)

lemma load_lt: "load h b q = Some u \<Longrightarrow> b < length h"
  by (auto simp: load_def split: if_splits)

lemma length_store [simp]: "length (store h b q w) = length h"
  by (simp add: store_def)










lemma sameButFields_refl [simp]: "sameButFields a a"
  by (simp add: sameButFields_def)

lemma sameButFields_trans: "sameButFields a b \<Longrightarrow> sameButFields b c \<Longrightarrow> sameButFields a c"
  by (simp add: sameButFields_def)

lemma extends_refl [simp]: "extends g g"
  by (simp add: extends_def)

lemma extends_trans:
  assumes "extends g g1" "extends g1 g2"
  shows "extends g g2"
proof -
  have "sameButFields (objs g ! j) (objs g2 ! j)" if "j < length (objs g)" for j
  proof -
    have "sameButFields (objs g ! j) (objs g1 ! j)" using assms(1) that by (simp add: extends_def)
    moreover have "sameButFields (objs g1 ! j) (objs g2 ! j)"
      using assms that by (simp add: extends_def)
    ultimately show ?thesis by (rule sameButFields_trans)
  qed
  then show ?thesis using assms by (simp add: extends_def)
qed

lemma extends_tagCache [simp]: "extends g (g\<lparr>tagCache := c\<rparr>)"
  by (simp add: extends_def)

lemma extends_buildTypeIndex [simp]: "extends g (buildTypeIndex g)"
  by (simp add: extends_def buildTypeIndex_def split: option.splits)

lemma extends_setField [simp]: "extends g (setField b q v g)"
  by (simp add: extends_def)

lemma extends_addDep [simp]: "extends g (addDep oid f c g)"
  by (simp add: extends_def sameButFields_def addDep_nth)

lemma extends_alloc [simp]: "extends g (g\<lparr>heap := heap g @ [z]\<rparr>)"
  by (simp add: extends_def)

lemma extends_provide1:
  assumes "provide1 g o0 = (g', r)"
  shows "extends g g'"
  using assms
proof (cases rule: provide1_cases)
  case (rejected e)
  then show ?thesis by simp
next
  case (unnamed t)
  then show ?thesis by (simp add: extends_def nth_append)
next
  case named
  then show ?thesis by (simp add: extends_def nth_append)
qed

lemma touch_extends: "touch oid g g' \<Longrightarrow> extends g g'"
proof (induction rule: touch.induct)
  case (touch_create g z ft pr g' r oid)
  have "extends g (g\<lparr>heap := heap g @ [z]\<rparr>)" by simp
  from extends_trans[OF this extends_provide1[OF touch_create]] show ?case .
next
  case (touch_inline g oid b p n ft i e g' r)
  then show ?case by (simp add: extends_provide1)
qed simp_all

lemma run_extends: "run g g' \<Longrightarrow> extends g g'"
  by (induction rule: run.induct) (auto intro: extends_trans touch_extends)

section \<open>Every visit is a sequence of elementary changes\<close>

lemma parseTagCached_grows: "c \<subseteq>\<^sub>m fst (parseTagCached esc c s)"
  by (auto simp: parseTagCached_def map_le_def split: option.splits)

lemma parseTagCached_cached:
  "snd (parseTagCached esc c s) = Inr r \<Longrightarrow> fst (parseTagCached esc c s) s = Some r"
  by (auto simp: parseTagCached_def split: option.splits if_splits)

lemma parseTagCached_hit:
  "c s = Some r \<Longrightarrow> parseTagCached esc c s = (c, Inr r)"
  by (simp add: parseTagCached_def)

lemma structOf_same:
  assumes "sameButFields a b"
  shows "structOf b = structOf a"
proof -
  have v: "Value b = Value a" and t: "reflectType b = reflectType a"
    using assms by (simp_all add: sameButFields_def)
  show ?thesis unfolding structOf_def v t ..
qed

lemma structOf_extends:
  "extends g g' \<Longrightarrow> oid < length (objs g) \<Longrightarrow> structOf (objs g' ! oid) = structOf (objs g ! oid)"
  by (simp add: extends_def structOf_same)

lemma provide1_heap:
  assumes "provide1 g o0 = (g', r)"
  shows "heap g' = heap g"
  using assms by (cases rule: provide1_cases) simp_all

lemma touches_assignExisting:
  assumes so: "structOf (objs g ! oid) = Some (b, p, n)"
    and ld: "load (heap g) b (p @ [i]) = Some u" "isNilOrZero u"
    and r: "assignExisting oid b (p @ [i]) d c g = (g', r)"
  shows "(touch oid)\<^sup>*\<^sup>* g g'"
proof (cases "Value (objs g ! c)")
  case None
  then show ?thesis using r by (simp add: assignExisting_def)
next
  case (Some tv)
  let ?g1 = "setField b (p @ [i]) (boxFor (fType d) tv) g"
  have t1: "touch oid g ?g1" using so ld by (rule touch_assign)
  have "structOf (objs ?g1 ! oid) = Some (b, p, n)" using so by simp
  then have t2: "touch oid ?g1 (addDep oid (fName d) c ?g1)" by (rule touch_dep)
  have "g' = addDep oid (fName d) c ?g1" using r Some by (simp add: assignExisting_def)
  then show ?thesis using t1 t2 by auto
qed

lemma touches_createAndAssign:
  assumes so: "structOf (objs g ! oid) = Some (b, p, n)" and lt: "oid < length (objs g)"
    and ld: "load (heap g) b (p @ [i]) = Some u" "isNilOrZero u"
    and r: "createAndAssign E oid b (p @ [i]) d pr g = (g', r)"
  shows "(touch oid)\<^sup>*\<^sup>* g g'"
proof (cases "\<exists>m. fType d = TPtr (TStruct m)")
  case False
  then have "g' = g" using r
    by (cases "fType d" rule: isStructPtr.cases) (auto simp: createAndAssign_def)
  then show ?thesis by simp
next
  case True
  then obtain m where m: "fType d = TPtr (TStruct m)" by blast
  let ?a = "length (heap g)"
  let ?new = "\<lparr>Value = Some (fType d, VPtr ?a []), Name = [], Complete = False,
        Fields = None, reflectType = None, privateFlag = pr, created = True,
        embedded = False\<rparr>"
  obtain g2 r2 where p1: "provide1 (g\<lparr>heap := heap g @ [zeroOf E m]\<rparr>) ?new = (g2, r2)"
    by (cases "provide1 (g\<lparr>heap := heap g @ [zeroOf E m]\<rparr>) ?new")
  have t1: "touch oid g g2" using p1 by (rule touch_create)
  show ?thesis
  proof (cases r2)
    case (Some e)
    then have "g' = g2" using r m p1 by (simp add: createAndAssign_def Let_def)
    then show ?thesis using t1 by auto
  next
    case None
    have ext: "extends g g2" using touch_extends[OF t1] .
    have so2: "structOf (objs g2 ! oid) = Some (b, p, n)"
      using structOf_extends[OF ext lt] so by simp
    have h2: "heap g2 = heap g @ [zeroOf E m]" using provide1_heap[OF p1] by simp
    have ld2: "load (heap g2) b (p @ [i]) = Some u" using ld(1) h2 by (simp add: load_append)
    let ?g3 = "setField b (p @ [i]) (VPtr ?a []) g2"
    have t2: "touch oid g2 ?g3" using so2 ld2 ld(2) by (rule touch_assign)
    have "structOf (objs ?g3 ! oid) = Some (b, p, n)" using so2 by simp
    then have t3: "touch oid ?g3 (addDep oid (fName d) (length (objs g)) ?g3)" by (rule touch_dep)
    have "g' = addDep oid (fName d) (length (objs g)) ?g3"
      using r m p1 None by (simp add: createAndAssign_def Let_def)
    then show ?thesis using t1 t2 t3 by auto
  qed
qed

lemma touches_injectPointer:
  assumes so: "structOf (objs g ! oid) = Some (b, p, n)" and lt: "oid < length (objs g)"
    and ld: "load (heap g) b (p @ [i]) = Some u" "isNilOrZero u"
    and r: "injectPointer E oid b (p @ [i]) d tg g = (g', r)"
  shows "(touch oid)\<^sup>*\<^sup>* g g'"
proof (cases "tagPrivate tg")
  case True
  then have "createAndAssign E oid b (p @ [i]) d (tagPrivate tg) g = (g', r)"
    using r by (simp add: injectPointer_def)
  from touches_createAndAssign[OF so lt ld this] show ?thesis .
next
  case False
  let ?g1 = "buildTypeIndex g"
  have t1: "touch oid g ?g1" by (rule touch_index)
  have o1: "objs ?g1 = objs g" "heap ?g1 = heap g"
    by (simp_all add: buildTypeIndex_def split: option.splits)
  have so1: "structOf (objs ?g1 ! oid) = Some (b, p, n)" and lt1: "oid < length (objs ?g1)"
    and ld1: "load (heap ?g1) b (p @ [i]) = Some u"
    using so lt ld o1 by simp_all
  have "(touch oid)\<^sup>*\<^sup>* ?g1 g'"
  proof (cases "firstShared (objs ?g1) (case typeIndex ?g1 of None \<Rightarrow> [] | Some idx \<Rightarrow> idx (fType d))")
    case (Some eid)
    then have "assignExisting oid b (p @ [i]) d eid ?g1 = (g', r)"
      using r False by (simp add: injectPointer_def Let_def)
    from touches_assignExisting[OF so1 ld1 ld(2) this] show ?thesis .
  next
    case None
    show ?thesis
    proof (cases "scanAssignable E (objs ?g1) (fType d) (unnamed ?g1)")
      case (Inl e)
      then have "g' = ?g1" using r False None by (simp add: injectPointer_def Let_def)
      then show ?thesis by simp
    next
      case (Inr x)
      show ?thesis
      proof (cases x)
        case None': None
        then have "createAndAssign E oid b (p @ [i]) d (tagPrivate tg) ?g1 = (g', r)"
          using r False None Inr by (simp add: injectPointer_def Let_def)
        from touches_createAndAssign[OF so1 lt1 ld1 ld(2) this] show ?thesis .
      next
        case (Some eid)
        then have "assignExisting oid b (p @ [i]) d eid ?g1 = (g', r)"
          using r False None Inr by (simp add: injectPointer_def Let_def)
        from touches_assignExisting[OF so1 ld1 ld(2) this] show ?thesis .
      qed
    qed
  qed
  then show ?thesis using t1 by auto
qed


lemma touches_injectNamed:
  assumes so: "structOf (objs g ! oid) = Some (b, p, n)"
    and ld: "load (heap g) b (p @ [i]) = Some u" "isNilOrZero u"
    and r: "injectNamed E oid b (p @ [i]) d tg g = (g', r)"
  shows "(touch oid)\<^sup>*\<^sup>* g g'"
proof (cases "named g (tagName tg)")
  case None
  then show ?thesis using r by (simp add: injectNamed_def)
next
  case (Some eid)
  show ?thesis
  proof (cases "reflectType (objs g ! eid)")
    case None
    then show ?thesis using r Some by (simp add: injectNamed_def)
  next
    case (Some et)
    show ?thesis
    proof (cases "assignable E et (fType d)")
      case False
      then show ?thesis using r Some \<open>named g (tagName tg) = Some eid\<close>
        by (simp add: injectNamed_def)
    next
      case True
      then have "assignExisting oid b (p @ [i]) d eid g = (g', r)"
        using r Some \<open>named g (tagName tg) = Some eid\<close> by (simp add: injectNamed_def)
      from touches_assignExisting[OF so ld this] show ?thesis .
    qed
  qed
qed

lemma explicitField_after_parse:
  assumes so: "structOf (objs g ! oid) = Some (b, p, n)" and lt: "oid < length (objs g)"
    and r: "explicitField E oid b p n i g = (g', r)"
  shows "(touch oid)\<^sup>*\<^sup>*
     (g\<lparr>tagCache := fst (parseTagCached (unquoteEsc E) (tagCache g) (fTag (fieldsOf E n ! i)))\<rparr>) g'"
proof -
  define d where "d = fieldsOf E n ! i"
  define cr where "cr = parseTagCached (unquoteEsc E) (tagCache g) (fTag d)"
  define g0 where "g0 = g\<lparr>tagCache := fst cr\<rparr>"
  have t0: "touch oid g g0"
    unfolding g0_def cr_def by (rule touch_cache) (rule parseTagCached_grows)
  have so0: "structOf (objs g0 ! oid) = Some (b, p, n)" and lt0: "oid < length (objs g0)"
    using so lt by (simp_all add: g0_def)
  have r': "(g', r) = (case snd cr of
           Inl e \<Rightarrow> (g0, Some (UnexpectedTagFormat (fTag d) (fName d)))
         | Inr None \<Rightarrow> (g0, None)
         | Inr (Some tg) \<Rightarrow>
             if \<not> fExported d then (g0, Some (Inaccessible (fName d)))
             else if tagInline tg \<and> \<not> isStructKind (fType d) then
               (g0, Some (InlineOnNonStruct (fName d)))
             else (case load (heap g0) b (p @ [i]) of
                 None \<Rightarrow> (g0, Some InvalidMemory)
               | Some fv \<Rightarrow>
                   if \<not> isNilOrZero fv then (g0, None)
                   else if tagName tg \<noteq> [] then injectNamed E oid b (p @ [i]) d tg g0
                   else if isStructKind (fType d) then
                     (if tagPrivate tg then (g0, Some (PrivateInline (fName d)))
                      else if \<not> tagInline tg then (g0, Some (InlineRequired (fName d)))
                      else provideInline b (p @ [i]) d g0)
                   else if isInterfaceKind (fType d) then (g0, None)
                   else if isMapKind (fType d) then
                     (if \<not> tagPrivate tg then (g0, Some (MapMisuse (fName d)))
                      else (setField b (p @ [i]) VMap g0, None))
                   else if \<not> isStructPtr (fType d) then (g0, Some (UnsupportedField (fName d)))
                   else injectPointer E oid b (p @ [i]) d tg g0))"
    using r unfolding explicitField_def d_def cr_def g0_def Let_def by simp
  have "(touch oid)\<^sup>*\<^sup>* g0 g'"
  proof (cases "snd cr")
    case (Inl e)
    then show ?thesis using r' by simp
  next
    case (Inr topt)
    show ?thesis
    proof (cases topt)
      case None
      then show ?thesis using r' Inr by simp
    next
      case (Some tg)
      note tg = Inr Some
      show ?thesis
      proof (cases "load (heap g0) b (p @ [i])")
        case None
        then show ?thesis using r' tg by (simp split: if_splits)
      next
        case (Some fv)
        note ld = Some
        show ?thesis
        proof (cases "isNilOrZero fv")
          case False
          then show ?thesis using r' tg ld by (simp split: if_splits)
        next
          case True
          note z = True
          consider (stop) "g' = g0"
            | (nm) "injectNamed E oid b (p @ [i]) d tg g0 = (g', r)"
            | (inl) "provideInline b (p @ [i]) d g0 = (g', r)"
            | (mp) "g' = setField b (p @ [i]) VMap g0"
            | (ptr) "injectPointer E oid b (p @ [i]) d tg g0 = (g', r)"
            using r' tg ld z by (auto split: if_splits)
          then show ?thesis
          proof cases
            case stop
            then show ?thesis by simp
          next
            case nm
            from touches_injectNamed[OF so0 ld z nm] show ?thesis .
          next
            case inl
            have "touch oid g0 g'"
              using touch_inline[OF so0 inl[unfolded provideInline_def]] .
            then show ?thesis by auto
          next
            case mp
            have "touch oid g0 g'" unfolding mp using so0 ld z by (rule touch_assign)
            then show ?thesis by auto
          next
            case ptr
            from touches_injectPointer[OF so0 lt0 ld z ptr] show ?thesis .
          qed
        qed
      qed
    qed
  qed
  then show ?thesis by (simp add: g0_def cr_def d_def)
qed

lemma touches_explicitField:
  assumes so: "structOf (objs g ! oid) = Some (b, p, n)" and lt: "oid < length (objs g)"
    and r: "explicitField E oid b p n i g = (g', r)"
  shows "(touch oid)\<^sup>*\<^sup>* g g'"
proof -
  let ?g0 = "g\<lparr>tagCache := fst (parseTagCached (unquoteEsc E) (tagCache g) (fTag (fieldsOf E n ! i)))\<rparr>"
  have "touch oid g ?g0" by (rule touch_cache) (rule parseTagCached_grows)
  then show ?thesis using explicitField_after_parse[OF so lt r] by auto
qed

lemma structOf_cong:
  assumes "reflectType a = reflectType b" "Value a = Value b"
  shows "structOf a = structOf b"
  unfolding structOf_def assms ..

lemma touches_scanInterface:
  assumes so: "structOf (objs g ! oid) = Some (b, p, n)"
    and ld: "found = None \<Longrightarrow> \<exists>u. load (heap g) b (p @ [i]) = Some u \<and> isNilOrZero u"
    and r: "scanInterface E oid b (p @ [i]) d ids found g = (g', r)"
  shows "(touch oid)\<^sup>*\<^sup>* g g'"
  using assms
proof (induction ids arbitrary: found g)
  case Nil
  then show ?case by (simp split: option.splits)
next
  case (Cons j ids)
  show ?case
  proof (cases "privateFlag (objs g ! j)")
    case True
    then have "scanInterface E oid b (p @ [i]) d ids found g = (g', r)" using Cons.prems(3) by simp
    from Cons.IH[OF Cons.prems(1,2) this] show ?thesis .
  next
    case np: False
    show ?thesis
    proof (cases "reflectType (objs g ! j)")
      case None
      then show ?thesis using Cons.prems(3) np by simp
    next
      case (Some t)
      show ?thesis
      proof (cases "assignable E t (fType d)")
        case False
        then have "scanInterface E oid b (p @ [i]) d ids found g = (g', r)"
          using Cons.prems(3) np Some by simp
        from Cons.IH[OF Cons.prems(1,2) this] show ?thesis .
      next
        case True
        show ?thesis
        proof (cases found)
          case (Some f)
          then show ?thesis using Cons.prems(3) np \<open>reflectType (objs g ! j) = Some t\<close> True by simp
        next
          case None
          obtain g1 r1 where ae: "assignExisting oid b (p @ [i]) d j g = (g1, r1)"
            by (cases "assignExisting oid b (p @ [i]) d j g")
          obtain u where u: "load (heap g) b (p @ [i]) = Some u" "isNilOrZero u"
            using Cons.prems(2)[OF None] by blast
          have t1: "(touch oid)\<^sup>*\<^sup>* g g1"
            using touches_assignExisting[OF Cons.prems(1) u ae] .
          show ?thesis
          proof (cases "fExported d")
            case False
            then have "g' = g"
              using Cons.prems(3) np \<open>reflectType (objs g ! j) = Some t\<close> True None by simp
            then show ?thesis by simp
          next
            case ex: True
          show ?thesis
          proof (cases r1)
            case (Some e)
            then have "g' = g1"
              using Cons.prems(3) np \<open>reflectType (objs g ! j) = Some t\<close> True None ae ex by simp
            then show ?thesis using t1 by simp
          next
            case r1n: None
            have sc: "scanInterface E oid b (p @ [i]) d ids (Some j) g1 = (g', r)"
              using Cons.prems(3) np \<open>reflectType (objs g ! j) = Some t\<close> True None ae r1n ex by simp
            have so1: "structOf (objs g1 ! oid) = Some (b, p, n)"
              using Cons.prems(1) structOf_cong[OF assignExisting_nth(2,3)[OF ae], of oid] by simp
            have "(touch oid)\<^sup>*\<^sup>* g1 g'"
              using Cons.IH[OF so1 _ sc] by simp
            then show ?thesis using t1 by auto
          qed
          qed
        qed
      qed
    qed
  qed
qed

lemma touches_interfaceField:
  assumes so: "structOf (objs g ! oid) = Some (b, p, n)"
    and r: "interfaceField E oid b p n i g = (g', r)"
  shows "(touch oid)\<^sup>*\<^sup>* g g'"
proof -
  define d where "d = fieldsOf E n ! i"
  define cr where "cr = parseTagCached (unquoteEsc E) (tagCache g) (fTag d)"
  define g0 where "g0 = g\<lparr>tagCache := fst cr\<rparr>"
  have t0: "touch oid g g0"
    unfolding g0_def cr_def by (rule touch_cache) (rule parseTagCached_grows)
  have so0: "structOf (objs g0 ! oid) = Some (b, p, n)"
    using so by (simp_all add: g0_def)
  have r': "(g', r) = (case snd cr of
           Inl e \<Rightarrow> (g0, Some (UnexpectedTagFormat (fTag d) (fName d)))
         | Inr None \<Rightarrow> (g0, None)
         | Inr (Some tg) \<Rightarrow>
             if \<not> isInterfaceKind (fType d) then (g0, None)
             else if tagPrivate tg then (g0, Some (PrivateInterface (fName d)))
             else (case load (heap g0) b (p @ [i]) of
                 None \<Rightarrow> (g0, Some InvalidMemory)
               | Some fv \<Rightarrow>
                   if \<not> isNilOrZero fv then (g0, None)
                   else if tagName tg \<noteq> [] then (g0, Some (UnhandledNamed (tagName tg)))
                   else scanInterface E oid b (p @ [i]) d (unnamed g0) None g0))"
    using r unfolding interfaceField_def d_def cr_def g0_def Let_def by simp
  consider (stop) "g' = g0"
    | (scan) fv where "load (heap g0) b (p @ [i]) = Some fv" "isNilOrZero fv"
        "scanInterface E oid b (p @ [i]) d (unnamed g0) None g0 = (g', r)"
    using r' by (auto split: sum.splits option.splits if_splits)
  then have "(touch oid)\<^sup>*\<^sup>* g0 g'"
  proof cases
    case stop
    then show ?thesis by simp
  next
    case scan
    show ?thesis using touches_scanInterface[OF so0 _ scan(3)] scan(1,2) by blast
  qed
  then show ?thesis using t0 by auto
qed

section \<open>Every call of \<open>Populate\<close> is a run\<close>

lemma provide1_unnamed_grows:
  assumes "provide1 g o0 = (g', r)"
  shows "\<exists>us. unnamed g' = unnamed g @ us"
  using assms by (cases rule: provide1_cases) simp_all

lemma provide1_named_unnamed:
  assumes "provide1 g o0 = (g', r)" "Name o0 = []"
  shows "named g' = named g"
  using assms by (cases rule: provide1_cases) simp_all

lemma touch_unnamed_grows: "touch oid g g' \<Longrightarrow> \<exists>us. unnamed g' = unnamed g @ us"
proof (induction rule: touch.induct)
  case (touch_create g z ft pr g' r oid)
  then show ?case using provide1_unnamed_grows[OF touch_create] by simp
next
  case (touch_inline g oid b p n ft i e g' r)
  then show ?case using provide1_unnamed_grows by blast
qed (simp_all add: buildTypeIndex_def split: option.splits)

lemma touch_named: "touch oid g g' \<Longrightarrow> named g' = named g"
proof (induction rule: touch.induct)
  case (touch_create g z ft pr g' r oid)
  then show ?case using provide1_named_unnamed[OF touch_create] by simp
next
  case (touch_inline g oid b p n ft i e g' r)
  then show ?case using provide1_named_unnamed[OF touch_inline(2)] by simp
qed (simp_all add: buildTypeIndex_def split: option.splits)

lemma touch_inGraph: "touch oid g g' \<Longrightarrow> inGraph g j \<Longrightarrow> inGraph g' j"
  using touch_unnamed_grows[of oid g g'] touch_named[of oid g g']
  by (auto simp: inGraph_def)

lemma provide1_new_id:
  assumes "provide1 g o0 = (g', r)"
  shows "set (unnamed g') \<subseteq> set (unnamed g) \<union> {j. j < length (objs g')}"
  using assms by (cases rule: provide1_cases) auto

lemma touch_idsValid:
  assumes "touch oid g g'" "idsValid g"
  shows "idsValid g'"
proof -
  have ext: "extends g g'" using touch_extends[OF assms(1)] .
  have nm: "named g' = named g" using touch_named[OF assms(1)] .
  have un: "set (unnamed g') \<subseteq> set (unnamed g) \<union> {j. j < length (objs g')}"
    using assms(1)
  proof (induction rule: touch.induct)
    case (touch_create g z ft pr g' r oid)
    then show ?case using provide1_new_id[OF touch_create] by simp
  next
    case (touch_inline g oid b p n ft i e g' r)
    then show ?case using provide1_new_id[OF touch_inline(2)] by simp
  qed (auto simp: buildTypeIndex_def split: option.splits)
  have len: "length (objs g) \<le> length (objs g')" using ext by (simp add: extends_def)
  show ?thesis
    unfolding idsValid_def inGraph_def
  proof (intro allI impI)
    fix j assume "j \<in> set (unnamed g') \<or> j \<in> ran (named g')"
    then consider "j \<in> set (unnamed g)" | "j < length (objs g')" | "j \<in> ran (named g)"
      using un nm by auto
    then show "j < length (objs g')"
    proof cases
      case 1
      then have "j < length (objs g)" using assms(2) by (simp add: idsValid_def inGraph_def)
      then show ?thesis using len by simp
    next
      case 2
      then show ?thesis .
    next
      case 3
      then have "j < length (objs g)" using assms(2) by (simp add: idsValid_def inGraph_def)
      then show ?thesis using len by simp
    qed
  qed
qed

lemma run_trans: "run g1 g2 \<Longrightarrow> run g g1 \<Longrightarrow> run g g2"
  by (induction rule: run.induct) (auto intro: run.intros)

lemma run_inGraph: "run g g' \<Longrightarrow> inGraph g j \<Longrightarrow> inGraph g' j"
  by (induction rule: run.induct) (auto intro: touch_inGraph)

lemma run_idsValid: "run g g' \<Longrightarrow> idsValid g \<Longrightarrow> idsValid g'"
  by (induction rule: run.induct) (auto intro: touch_idsValid)

lemma run_unnamed_grows: "run g g' \<Longrightarrow> \<exists>us. unnamed g' = unnamed g @ us"
proof (induction rule: run.induct)
  case (run_step g g1 oid g2)
  then show ?case using touch_unnamed_grows[of oid g1 g2] by auto
qed simp

lemma run_named: "run g g' \<Longrightarrow> named g' = named g"
  by (induction rule: run.induct) (auto simp: touch_named)

lemma touches_run:
  assumes "(touch oid)\<^sup>*\<^sup>* g g'" "inGraph g oid" "oid < length (objs g)" "\<not> Complete (objs g ! oid)"
  shows "run g g' \<and> oid < length (objs g') \<and> \<not> Complete (objs g' ! oid)"
  using assms
proof (induction rule: rtranclp_induct)
  case base
  then show ?case by (simp add: run_refl)
next
  case (step y z)
  then have ih: "run g y" "oid < length (objs y)" "\<not> Complete (objs y ! oid)" by simp_all
  have ig: "inGraph y oid" using run_inGraph[OF ih(1) step.prems(1)] .
  have "run g z" using run_step[OF ih(1) ig ih(3) step.hyps(2)] .
  moreover have "extends y z" using touch_extends[OF step.hyps(2)] .
  then have "oid < length (objs z)" "Complete (objs z ! oid) = Complete (objs y ! oid)"
    using ih(2) by (auto simp: extends_def sameButFields_def)
  ultimately show ?case using ih(3) by simp
qed

lemma touches_extends: "(touch oid)\<^sup>*\<^sup>* g g' \<Longrightarrow> extends g g'"
  by (induction rule: rtranclp_induct) (auto intro: extends_trans touch_extends)

lemma touches_forEach:
  assumes step: "\<And>x g g' r. structOf (objs g ! oid) = Some (b, p, n) \<Longrightarrow> oid < length (objs g)
      \<Longrightarrow> f x g = (g', r) \<Longrightarrow> (touch oid)\<^sup>*\<^sup>* g g'"
    and so: "structOf (objs g ! oid) = Some (b, p, n)" and lt: "oid < length (objs g)"
    and r: "forEach f xs g = (g', r)"
  shows "(touch oid)\<^sup>*\<^sup>* g g'"
  using so lt r
proof (induction xs arbitrary: g)
  case Nil
  then show ?case by simp
next
  case (Cons x xs)
  obtain g1 r1 where f: "f x g = (g1, r1)" by (cases "f x g")
  have t1: "(touch oid)\<^sup>*\<^sup>* g g1" using step[OF Cons.prems(1,2) f] .
  show ?case
  proof (cases r1)
    case (Some e)
    then have "g' = g1" using Cons.prems(3) f by simp
    then show ?thesis using t1 by simp
  next
    case None
    have ext: "extends g g1" using touches_extends[OF t1] .
    have so1: "structOf (objs g1 ! oid) = Some (b, p, n)"
      using structOf_extends[OF ext Cons.prems(2)] Cons.prems(1) by simp
    have lt1: "oid < length (objs g1)" using ext Cons.prems(2) by (simp add: extends_def)
    have "forEach f xs g1 = (g', r)" using Cons.prems(3) f None by simp
    from Cons.IH[OF so1 lt1 this] t1 show ?thesis by auto
  qed
qed

lemma touches_populateExplicit:
  assumes lt: "oid < length (objs g)" and r: "populateExplicit E oid g = (g', r)"
  shows "(touch oid)\<^sup>*\<^sup>* g g'"
proof (cases "ignoredNamedValue (objs g ! oid) = Inr False \<and> structOf (objs g ! oid) \<noteq> None")
  case False
  then have "g' = g" using r
    by (auto simp: populateExplicit_def split: sum.splits bool.splits option.splits)
  then show ?thesis by simp
next
  case True
  then obtain b p n where so: "structOf (objs g ! oid) = Some (b, p, n)" by auto
  have fe: "forEach (explicitField E oid b p n) [0..<length (fieldsOf E n)] g = (g', r)"
    using r True so by (simp add: populateExplicit_def)
  show ?thesis
    by (rule touches_forEach[OF _ so lt fe]) (rule touches_explicitField)
qed

lemma touches_populateUnnamedInterface:
  assumes lt: "oid < length (objs g)" and r: "populateUnnamedInterface E oid g = (g', r)"
  shows "(touch oid)\<^sup>*\<^sup>* g g'"
proof (cases "ignoredNamedValue (objs g ! oid) = Inr False \<and> structOf (objs g ! oid) \<noteq> None")
  case False
  then have "g' = g" using r
    by (auto simp: populateUnnamedInterface_def split: sum.splits bool.splits option.splits)
  then show ?thesis by simp
next
  case True
  then obtain b p n where so: "structOf (objs g ! oid) = Some (b, p, n)" by auto
  have fe: "forEach (interfaceField E oid b p n) [0..<length (fieldsOf E n)] g = (g', r)"
    using r True so by (simp add: populateUnnamedInterface_def)
  show ?thesis
    by (rule touches_forEach[OF _ so lt fe]) (rule touches_interfaceField)
qed

lemma run_visit:
  assumes step: "\<And>g g' r. oid < length (objs g) \<Longrightarrow> f oid g = (g', r) \<Longrightarrow> (touch oid)\<^sup>*\<^sup>* g g'"
    and iv: "idsValid g" and ig: "inGraph g oid" and r: "visit f oid g = (g', r)"
  shows "run g g'"
proof (cases "Complete (objs g ! oid)")
  case True
  then show ?thesis using r by (simp add: visit_def run_refl)
next
  case False
  have lt: "oid < length (objs g)" using iv ig by (simp add: idsValid_def)
  have "f oid g = (g', r)" using r False by (simp add: visit_def)
  from touches_run[OF step[OF lt this] ig lt False] show ?thesis by simp
qed

lemma run_forEach_visit:
  assumes step: "\<And>oid g g' r. oid < length (objs g) \<Longrightarrow> f oid g = (g', r) \<Longrightarrow> (touch oid)\<^sup>*\<^sup>* g g'"
    and iv: "idsValid g" and ig: "\<forall>j \<in> set ids. inGraph g j"
    and r: "forEach (visit f) ids g = (g', r)"
  shows "run g g'"
  using iv ig r
proof (induction ids arbitrary: g)
  case Nil
  then show ?case by (simp add: run_refl)
next
  case (Cons j ids)
  obtain g1 r1 where v: "visit f j g = (g1, r1)" by (cases "visit f j g")
  have r1: "run g g1" using run_visit[OF step Cons.prems(1) _ v] Cons.prems(2) by simp
  show ?case
  proof (cases r1)
    case (Some e)
    then have "g' = g1" using Cons.prems(3) v by simp
    then show ?thesis using r1 by simp
  next
    case None
    have "forEach (visit f) ids g1 = (g', r)" using Cons.prems(3) v None by simp
    moreover have "idsValid g1" using run_idsValid[OF r1 Cons.prems(1)] .
    moreover have "\<forall>k \<in> set ids. inGraph g1 k" using Cons.prems(2) run_inGraph[OF r1] by simp
    ultimately have "run g1 g'" using Cons.IH by blast
    then show ?thesis using r1 by (rule run_trans)
  qed
qed

lemma namedObjects_inGraph: "j \<in> set (namedObjects (named g) ks) \<Longrightarrow> inGraph g j"
  by (induction ks) (auto simp: inGraph_def ran_def split: option.splits)

lemma run_worklist:
  assumes "worklist E fuel i g = Some (g', r)" "idsValid g" "i \<le> length (unnamed g)"
  shows "run g g'"
  using assms
proof (induction fuel arbitrary: i g)
  case 0
  then show ?case by (simp add: worklist.simps run_refl split: if_splits)
next
  case (Suc fuel)
  show ?case
  proof (cases "i = length (unnamed g)")
    case True
    then show ?thesis using Suc.prems(1) by (simp add: worklist.simps run_refl)
  next
    case False
    then have lt: "i < length (unnamed g)" using Suc.prems(3) by simp
    obtain g1 r1 where v: "visit (populateExplicit E) (unnamed g ! i) g = (g1, r1)"
      by (cases "visit (populateExplicit E) (unnamed g ! i) g")
    have ig: "inGraph g (unnamed g ! i)" using lt by (simp add: inGraph_def)
    have r1: "run g g1"
      by (rule run_visit[OF _ Suc.prems(2) ig v]) (rule touches_populateExplicit)
    show ?thesis
    proof (cases r1)
      case (Some e)
      then have "g' = g1" using Suc.prems(1) False v by (simp add: worklist.simps)
      then show ?thesis using r1 by simp
    next
      case None
      have w: "worklist E fuel (Suc i) g1 = Some (g', r)"
        using Suc.prems(1) False v None by (simp add: worklist.simps)
      have iv1: "idsValid g1" using run_idsValid[OF r1 Suc.prems(2)] .
      have "Suc i \<le> length (unnamed g1)" using run_unnamed_grows[OF r1] lt by auto
      from Suc.IH[OF w iv1 this] have "run g1 g'" .
      then show ?thesis using r1 by (rule run_trans)
    qed
  qed
qed

lemma run_phase1:
  assumes "phase1 E ks fuel g = Some (g', r)" "idsValid g"
  shows "run g g'"
proof -
  obtain g1 r1 where f: "forEach (visit (populateExplicit E)) (namedObjects (named g) ks) g = (g1, r1)"
    by (cases "forEach (visit (populateExplicit E)) (namedObjects (named g) ks) g")
  have r1: "run g g1"
    by (rule run_forEach_visit[OF _ assms(2) _ f]) (auto intro: touches_populateExplicit namedObjects_inGraph)
  show ?thesis
  proof (cases r1)
    case (Some e)
    then have "g' = g1" using assms(1) f by (simp add: phase1_def)
    then show ?thesis using r1 by simp
  next
    case None
    then have "worklist E fuel 0 g1 = Some (g', r)" using assms(1) f by (simp add: phase1_def)
    from run_worklist[OF this run_idsValid[OF r1 assms(2)]] have "run g1 g'" by simp
    then show ?thesis using r1 by (rule run_trans)
  qed
qed



section \<open>What a run leaves alone\<close>










section \<open>Objects marked complete\<close>

lemmas ex_defs = Populate_def phase1_def phase2_def worklist.simps visit_def populateExplicit_def
  populateUnnamedInterface_def explicitField_def interfaceField_def injectPointer_def injectNamed_def
  provideInline_def createAndAssign_def assignExisting_def addDep_def setField_def buildTypeIndex_def
  ignoredNamedValue_def structOf_def provide1_def newObject_def emptyGraph_def exEnv_def exFuel_def
  load_def store_def boxFor_def assignable_def Let_def
  parseTagCached_def malformedTag_def contains_def hasSuffix_def quoteChar_def isKeyChar_def
  tagPlain_def tagPriv_def tagNamed_def tagOfValue_def unquote_def injectOnly_def injectPrivate_def
  injectInline_def trimSpace_def firstPart_def isSpace_def





section \<open>Named objects that are not pointers to structs\<close>






section \<open>Phase 1: the plain directive on a pointer field\<close>

lemma indexObjects_entries:
  "c \<in> set (indexObjects os ids idx t) \<Longrightarrow>
     c \<in> set (idx t) \<or> (c \<in> set ids \<and> reflectType (os ! c) = Some t)"
proof (induction ids arbitrary: idx)
  case Nil
  then show ?case by simp
next
  case (Cons j ids)
  show ?case
  proof (cases "privateFlag (os ! j)")
    case True
    then show ?thesis using Cons.IH[of idx] Cons.prems by auto
  next
    case False
    show ?thesis
    proof (cases "reflectType (os ! j)")
      case None
      then show ?thesis using Cons.IH[of idx] Cons.prems False by auto
    next
      case (Some u)
      then have "c \<in> set (indexObjects os ids (idx(u := idx u @ [j])) t)"
        using Cons.prems False by simp
      from Cons.IH[OF this] show ?thesis using Some by (auto split: if_splits)
    qed
  qed
qed

lemma indexOk_tagCache [simp]: "indexOk (g\<lparr>tagCache := c\<rparr>) = indexOk g"
  by (cases "typeIndex g") (simp_all add: indexOk_def)

lemma indexOk_buildTypeIndex:
  assumes "indexOk g"
  shows "indexOk (buildTypeIndex g)"
proof (cases "typeIndex g")
  case None
  have "c \<in> set (unnamed g) \<and> reflectType (objs g ! c) = Some t"
    if "c \<in> set (indexObjects (objs g) (unnamed g) (\<lambda>t. []) t)" for c t
    using indexObjects_entries[OF that] by simp
  then show ?thesis using None by (simp add: indexOk_def buildTypeIndex_def)
next
  case (Some idx)
  then show ?thesis using assms by (simp add: buildTypeIndex_def)
qed




lemma scanOk_cong:
  "objs g' = objs g \<Longrightarrow> scanOk g' ids = scanOk g ids"
  by (simp add: scanOk_def)




section \<open>Phase 1: the private directive on a pointer field\<close>




section \<open>Well-formed graphs\<close>

lemma provide1_objsTyped:
  assumes "provide1 g o0 = (g', r)" "objsTyped g"
  shows "objsTyped g'"
  using assms by (cases rule: provide1_cases) (auto simp: objsTyped_def)

lemma provide1_unnamedTyped:
  assumes p: "provide1 g o0 = (g', r)" and ut: "unnamedTyped g"
  shows "unnamedTyped g'"
  using p
proof (cases rule: provide1_cases)
  case (rejected e)
  then show ?thesis using ut by simp
next
  case (unnamed t)
  have "objs g' = objs g @ [o0\<lparr>reflectType := Some t\<rparr>]" "unnamed g' = unnamed g @ [length (objs g)]"
    using unnamed(7) by simp_all
  from unnamedTyped_append[OF ut this] unnamed(5) show ?thesis by simp
next
  case named
  have "objs g' = objs g @ [o0\<lparr>reflectType := map_option fst (Value o0)\<rparr>]" "unnamed g' = unnamed g @ []"
    using named(5) by simp_all
  from unnamedTyped_append[OF ut this] show ?thesis by simp
qed

lemma provide1_idsValid:
  assumes p: "provide1 g o0 = (g', r)" and iv: "idsValid g"
  shows "idsValid g'"
  using p
proof (cases rule: provide1_cases)
  case (rejected e)
  then show ?thesis using iv by simp
next
  case (unnamed t)
  then show ?thesis using iv by (auto simp: idsValid_def inGraph_def less_Suc_eq)
next
  case named
  then show ?thesis using iv
    by (auto simp: idsValid_def inGraph_def ran_def less_Suc_eq split: if_splits)
qed

lemma indexOk_extends:
  assumes io: "indexOk g" and ut: "unnamedTyped g" and ext: "extends g g'"
    and un: "set (unnamed g) \<subseteq> set (unnamed g')" and ti: "typeIndex g' = typeIndex g"
  shows "indexOk g'"
proof (cases "typeIndex g")
  case None
  then show ?thesis using ti by (simp add: indexOk_def)
next
  case (Some idx)
  have "c \<in> set (unnamed g') \<and> reflectType (objs g' ! c) = Some t" if "c \<in> set (idx t)" for c t
  proof -
    have c: "c \<in> set (unnamed g)" "reflectType (objs g ! c) = Some t"
      using io Some that by (auto simp: indexOk_def)
    then have "c < length (objs g)" using ut by (auto simp: unnamedTyped_def list_all_iff)
    then have "sameButFields (objs g ! c) (objs g' ! c)" using ext by (simp add: extends_def)
    then show ?thesis using c un by (auto simp: sameButFields_def)
  qed
  then show ?thesis using Some ti by (simp add: indexOk_def)
qed

lemma provide1_typeIndex:
  assumes "provide1 g o0 = (g', r)"
  shows "typeIndex g' = typeIndex g"
  using assms by (cases rule: provide1_cases) simp_all

lemma provide1_graphOk:
  assumes p: "provide1 g o0 = (g', r)" and ok: "graphOk g"
  shows "graphOk g'"
proof -
  have ut: "unnamedTyped g" and ot: "objsTyped g" and nv: "namedValid g" and io: "indexOk g"
    using ok by (simp_all add: graphOk_def)
  have un: "set (unnamed g) \<subseteq> set (unnamed g')" using provide1_unnamed_grows[OF p] by auto
  have "indexOk g'"
    using indexOk_extends[OF io ut extends_provide1[OF p] un provide1_typeIndex[OF p]] .
  moreover have "namedValid g'"
    using p
  proof (cases rule: provide1_cases)
    case (rejected e)
    then show ?thesis using nv by simp
  next
    case (unnamed t)
    then show ?thesis using nv by (auto simp: namedValid_def less_Suc_eq)
  next
    case named
    then show ?thesis using nv by (auto simp: namedValid_def less_Suc_eq split: if_splits)
  qed
  ultimately show ?thesis
    using provide1_unnamedTyped[OF p ut] provide1_objsTyped[OF p ot] by (simp add: graphOk_def)
qed

lemma Provide_inv:
  assumes step: "\<forall>g o0 g' r. provide1 g o0 = (g', r) \<longrightarrow> P g \<longrightarrow> P g'"
  shows "P g \<Longrightarrow> P (fst (Provide g os))"
proof (induction os arbitrary: g)
  case Nil
  then show ?case by simp
next
  case (Cons a os)
  obtain g1 r1 where p: "provide1 g a = (g1, r1)" by (cases "provide1 g a")
  have "P g1" using step p Cons.prems by blast
  then show ?case using Cons.IH[of g1] p by (cases r1) simp_all
qed

lemma provideCalls_inv:
  assumes step: "\<forall>g o0 g' r. provide1 g o0 = (g', r) \<longrightarrow> P g \<longrightarrow> P g'"
  shows "P g \<Longrightarrow> P (provideCalls g bs)"
proof (induction bs arbitrary: g)
  case Nil
  then show ?case by simp
next
  case (Cons b bs)
  have "P (fst (Provide g b))" using Provide_inv[OF step Cons.prems] .
  then show ?case using Cons.IH by simp
qed

text \<open>Every graph that calls of \<open>Provide\<close> build from the empty graph is well formed.\<close>

lemma provideCalls_wellformed:
  "graphOk (provideCalls (emptyGraph h) bs)" "idsValid (provideCalls (emptyGraph h) bs)"
proof -
  have "graphOk (emptyGraph h)"
    by (simp add: graphOk_def emptyGraph_def unnamedTyped_def objsTyped_def namedValid_def indexOk_def)
  moreover have "\<forall>g o0 g' r. provide1 g o0 = (g', r) \<longrightarrow> graphOk g \<longrightarrow> graphOk g'"
    using provide1_graphOk by blast
  ultimately show "graphOk (provideCalls (emptyGraph h) bs)"
    using provideCalls_inv[of graphOk] by blast
  have "idsValid (emptyGraph h)" by (simp add: idsValid_def inGraph_def emptyGraph_def)
  moreover have "\<forall>g o0 g' r. provide1 g o0 = (g', r) \<longrightarrow> idsValid g \<longrightarrow> idsValid g'"
    using provide1_idsValid by blast
  ultimately show "idsValid (provideCalls (emptyGraph h) bs)"
    using provideCalls_inv[of idsValid] by blast
qed

lemma graphOk_cong:
  assumes "objs g' = objs g" "unnamed g' = unnamed g" "named g' = named g" "typeIndex g' = typeIndex g"
  shows "graphOk g' = graphOk g"
proof -
  have "indexOk g' = indexOk g"
    unfolding indexOk_def assms ..
  then show ?thesis using assms
    by (simp add: graphOk_def unnamedTyped_def objsTyped_def namedValid_def)
qed

lemma touch_graphOk:
  assumes t: "touch oid g g'" and ok: "graphOk g"
  shows "graphOk g'"
  using t ok
proof (induction rule: touch.induct)
  case (touch_cache g c oid)
  then show ?case using graphOk_cong[of "g\<lparr>tagCache := c\<rparr>" g] by simp
next
  case (touch_index oid g)
  have io: "indexOk (buildTypeIndex g)"
    using indexOk_buildTypeIndex touch_index by (simp add: graphOk_def)
  have "objs (buildTypeIndex g) = objs g" "unnamed (buildTypeIndex g) = unnamed g"
    "named (buildTypeIndex g) = named g"
    by (simp_all add: buildTypeIndex_def split: option.splits)
  then show ?case using touch_index io
    by (simp add: graphOk_def unnamedTyped_def objsTyped_def namedValid_def)
next
  case (touch_create g z ft pr g' r oid)
  have "graphOk (g\<lparr>heap := heap g @ [z]\<rparr>)"
    using graphOk_cong[of "g\<lparr>heap := heap g @ [z]\<rparr>" g] touch_create(2) by simp
  from provide1_graphOk[OF touch_create(1) this] show ?case .
next
  case (touch_inline g oid b p n ft i e g' r)
  from provide1_graphOk[OF touch_inline(2,3)] show ?case .
next
  case (touch_assign g oid b p n i u v)
  then show ?case using graphOk_cong[of "setField b (p @ [i]) v g" g] by simp
next
  case (touch_dep g oid b p n f c)
  have ut: "unnamedTyped g" and io: "indexOk g" using touch_dep by (simp_all add: graphOk_def)
  have "indexOk (addDep oid f c g)"
    by (rule indexOk_extends[OF io ut]) simp_all
  moreover have "unnamedTyped (addDep oid f c g)"
    using ut by (simp add: unnamedTyped_def addDep_nth)
  moreover have "objsTyped (addDep oid f c g)"
    using touch_dep(2) by (simp add: graphOk_def objsTyped_def list_all_length addDep_nth)
  moreover have "namedValid (addDep oid f c g)"
    using touch_dep(2) by (simp add: graphOk_def namedValid_def)
  ultimately show ?case by (simp add: graphOk_def)
qed

text \<open>Every state of a run from a well-formed graph is well formed: the hypotheses on
  the graph in the theorems about single steps hold whenever a phase comes to a field.\<close>

lemma run_graphOk: "run g g' \<Longrightarrow> graphOk g \<Longrightarrow> graphOk g'"
  by (induction rule: run.induct) (auto intro: touch_graphOk)

section \<open>Phase 1 settles every field it passes\<close>

lemma zero_sub: "isNilOrZero x \<Longrightarrow> getAt x q = Some v \<Longrightarrow> isNilOrZero v"
  by (induction x q rule: getAt.induct) (auto split: if_splits)

lemma nonzero_setAt:
  assumes "getAt x q' = Some u" "isNilOrZero u" "getAt x q = Some v" "\<not> isNilOrZero v"
  shows "\<exists>v'. getAt (setAt x q' w) q = Some v' \<and> \<not> isNilOrZero v'"
  using assms
proof (induction x q' w arbitrary: q v rule: setAt.induct)
  case (1 x w)
  then show ?case using zero_sub[of x q v] by simp
next
  case (2 vs i r w)
  then have il: "i < length vs" and gu: "getAt (vs ! i) r = Some u"
    by (auto split: if_splits)
  show ?case
  proof (cases q)
    case Nil
    then have nz: "\<not> isNilOrZero (VStruct vs)" using "2.prems" by simp
    then obtain y where y: "y \<in> set vs" "\<not> isNilOrZero y" by auto
    then obtain k where k: "k < length vs" "vs ! k = y" by (auto simp: in_set_conv_nth)
    have "\<exists>z \<in> set (vs[i := setAt (vs ! i) r w]). \<not> isNilOrZero z"
    proof (cases "k = i")
      case True
      have "\<exists>v'. getAt (setAt (vs ! i) r w) [] = Some v' \<and> \<not> isNilOrZero v'"
        using "2.IH"[OF il gu "2.prems"(2), of "[]" "vs ! i"] y k True by simp
      then have "\<not> isNilOrZero (setAt (vs ! i) r w)" by simp
      moreover have "setAt (vs ! i) r w \<in> set (vs[i := setAt (vs ! i) r w])"
        using il by (simp add: set_update_memI)
      ultimately show ?thesis by blast
    next
      case False
      then have "vs[i := setAt (vs ! i) r w] ! k = y" using k by simp
      then have "y \<in> set (vs[i := setAt (vs ! i) r w])"
        using k(1) by (metis length_list_update nth_mem)
      then show ?thesis using y(2) by blast
    qed
    then show ?thesis using Nil il by simp
  next
    case (Cons k q2)
    then have kl: "k < length vs" and gv: "getAt (vs ! k) q2 = Some v"
      using "2.prems"(3) by (auto split: if_splits)
    show ?thesis
    proof (cases "k = i")
      case True
      from "2.IH"[OF il gu "2.prems"(2), of q2 v] gv True "2.prems"(4)
      show ?thesis using Cons il by simp
    next
      case False
      then show ?thesis using Cons il kl gv "2.prems"(4) by simp
    qed
  qed
qed simp_all

lemma nonZeroAt_store:
  assumes "load h b' q' = Some u" "isNilOrZero u" "nonZeroAt h b q"
  shows "nonZeroAt (store h b' q' w) b q"
proof (cases "b = b'")
  case False
  then show ?thesis using assms(3) by (auto simp: nonZeroAt_def load_def store_def split: if_splits)
next
  case True
  have bl: "b' < length h" using load_lt[OF assms(1)] .
  obtain v where v: "getAt (h ! b') q = Some v" "\<not> isNilOrZero v"
    using assms(3) True bl by (auto simp: nonZeroAt_def load_def split: option.splits)
  have gu: "getAt (h ! b') q' = Some u" using assms(1) bl by (simp add: load_def)
  from nonzero_setAt[OF gu assms(2) v, of w]
  show ?thesis using True bl by (auto simp: nonZeroAt_def load_def store_def)
qed

lemma nonZeroAt_append: "nonZeroAt h b q \<Longrightarrow> nonZeroAt (h @ xs) b q"
  by (auto simp: nonZeroAt_def load_def nth_append split: option.splits if_splits)

lemma touch_nonZeroAt: "touch oid g g' \<Longrightarrow> nonZeroAt (heap g) b q \<Longrightarrow> nonZeroAt (heap g') b q"
proof (induction rule: touch.induct)
  case (touch_create g z ft pr g' r oid)
  then show ?case using provide1_heap[OF touch_create(1)] by (simp add: nonZeroAt_append)
next
  case (touch_inline g oid b p n ft i e g' r)
  then show ?case using provide1_heap[OF touch_inline(2)] by simp
next
  case (touch_assign g oid b p n i u v)
  then show ?case by (simp add: nonZeroAt_store)
qed (simp_all add: buildTypeIndex_def split: option.splits)

lemma provide1_tagCache:
  assumes "provide1 g o0 = (g', r)"
  shows "tagCache g' = tagCache g"
  using assms by (cases rule: provide1_cases) simp_all

lemma touch_cache_grows: "touch oid g g' \<Longrightarrow> tagCache g \<subseteq>\<^sub>m tagCache g'"
proof (induction rule: touch.induct)
  case (touch_create g z ft pr g' r oid)
  then show ?case using provide1_tagCache[OF touch_create(1)] by simp
next
  case (touch_inline g oid b p n ft i e g' r)
  then show ?case using provide1_tagCache[OF touch_inline(2)] by simp
qed (simp_all add: buildTypeIndex_def split: option.splits)

lemma touch_settled:
  assumes "touch oid g g'" "settled E g b p n i"
  shows "settled E g' b p n i"
proof -
  let ?s = "fTag (fieldsOf E n ! i)"
  obtain r where r: "tagCache g ?s = Some r"
    using assms(2) by (auto simp: settled_def split: option.splits)
  have r': "tagCache g' ?s = Some r"
    using touch_cache_grows[OF assms(1)] r by (auto simp: map_le_def dom_def)
  show ?thesis
    using assms(2) r r' touch_nonZeroAt[OF assms(1), of b "p @ [i]"]
    by (auto simp: settled_def split: option.splits)
qed

lemma ignoredNamedValue_same: "sameButFields a b \<Longrightarrow> ignoredNamedValue b = ignoredNamedValue a"
  by (simp add: ignoredNamedValue_def sameButFields_def)

lemma touch_objDone:
  assumes t: "touch oid g g'" and lt: "x < length (objs g)" and d: "objDone E g x"
  shows "objDone E g' x"
proof -
  have sb: "sameButFields (objs g ! x) (objs g' ! x)"
    using touch_extends[OF t] lt by (simp add: extends_def)
  have c: "Complete (objs g' ! x) = Complete (objs g ! x)" using sb by (simp add: sameButFields_def)
  have ig: "ignoredNamedValue (objs g' ! x) = ignoredNamedValue (objs g ! x)"
    using ignoredNamedValue_same[OF sb] .
  have so: "structOf (objs g' ! x) = structOf (objs g ! x)" using structOf_same[OF sb] .
  show ?thesis
  proof (cases "Complete (objs g ! x) \<or> ignoredNamedValue (objs g ! x) = Inr True")
    case True
    then show ?thesis using c ig by (auto simp: objDone_def)
  next
    case False
    then have nv: "ignoredNamedValue (objs g ! x) = Inr False" using d by (simp add: objDone_def)
    obtain b p n where a: "structOf (objs g ! x) = Some (b, p, n)"
      using d False by (cases "structOf (objs g ! x)") (auto simp: objDone_def)
    have "\<forall>i < length (fieldsOf E n). settled E g b p n i"
      using d False a by (simp add: objDone_def)
    then have "\<forall>i < length (fieldsOf E n). settled E g' b p n i"
      using touch_settled[OF t] by blast
    then show ?thesis using so a ig nv by (simp add: objDone_def)
  qed
qed

lemma run_objDone:
  assumes "run g g'" "x < length (objs g)" "objDone E g x"
  shows "objDone E g' x"
  using assms
proof (induction rule: run.induct)
  case (run_refl g)
  then show ?case by simp
next
  case (run_step g g1 oid g2)
  have "x < length (objs g1)"
    using run_extends[OF run_step.hyps(1)] run_step.prems(1) by (simp add: extends_def)
  from touch_objDone[OF run_step.hyps(4) this] run_step show ?case by simp
qed

lemma touches_settled:
  "(touch oid)\<^sup>*\<^sup>* g g' \<Longrightarrow> settled E g b p n i \<Longrightarrow> settled E g' b p n i"
  by (induction rule: rtranclp_induct) (auto intro: touch_settled)

lemma touches_cache_grows: "(touch oid)\<^sup>*\<^sup>* g g' \<Longrightarrow> tagCache g \<subseteq>\<^sub>m tagCache g'"
  by (induction rule: rtranclp_induct) (auto intro: map_le_trans touch_cache_grows)

lemma touches_nonZeroAt:
  "(touch oid)\<^sup>*\<^sup>* g g' \<Longrightarrow> nonZeroAt (heap g) b q \<Longrightarrow> nonZeroAt (heap g') b q"
  by (induction rule: rtranclp_induct) (auto intro: touch_nonZeroAt)

lemma injectNamed_iface_result:
  assumes "injectNamed E oid b q d tg g = (g', None)" "isInterfaceKind (fType d)"
    "load (heap g) b q = Some u"
  shows "nonZeroAt (heap g') b q"
proof -
  obtain eid where eid: "named g (tagName tg) = Some eid"
    using assms(1) by (cases "named g (tagName tg)") (simp_all add: injectNamed_def)
  obtain et where et: "reflectType (objs g ! eid) = Some et"
    using assms(1) eid by (cases "reflectType (objs g ! eid)") (simp_all add: injectNamed_def)
  have ae: "assignExisting oid b q d eid g = (g', None)"
    using assms(1) eid et by (simp add: injectNamed_def split: if_splits)
  obtain tv where tv: "Value (objs g ! eid) = Some tv"
    using ae by (cases "Value (objs g ! eid)") (simp_all add: assignExisting_def)
  have "g' = addDep oid (fName d) eid (setField b q (boxFor (fType d) tv) g)"
    using ae tv by (simp add: assignExisting_def)
  then have "load (heap g') b q = Some (VIface (fst tv) (snd tv))"
    using load_store[OF assms(3)] assms(2) by (simp add: boxFor_def)
  then show ?thesis by (simp add: nonZeroAt_def)
qed

lemma explicitField_settles:
  assumes so: "structOf (objs g ! oid) = Some (b, p, n)" and lt: "oid < length (objs g)"
    and r: "explicitField E oid b p n i g = (g', None)"
  shows "settled E g' b p n i"
proof -
  define d where "d = fieldsOf E n ! i"
  define cr where "cr = parseTagCached (unquoteEsc E) (tagCache g) (fTag d)"
  define g0 where "g0 = g\<lparr>tagCache := fst cr\<rparr>"
  have steps: "(touch oid)\<^sup>*\<^sup>* g0 g'"
    using explicitField_after_parse[OF so lt r] by (simp add: g0_def cr_def d_def)
  have r': "(g', None) = (case snd cr of
           Inl e \<Rightarrow> (g0, Some (UnexpectedTagFormat (fTag d) (fName d)))
         | Inr None \<Rightarrow> (g0, None)
         | Inr (Some tg) \<Rightarrow>
             if \<not> fExported d then (g0, Some (Inaccessible (fName d)))
             else if tagInline tg \<and> \<not> isStructKind (fType d) then
               (g0, Some (InlineOnNonStruct (fName d)))
             else (case load (heap g0) b (p @ [i]) of
                 None \<Rightarrow> (g0, Some InvalidMemory)
               | Some fv \<Rightarrow>
                   if \<not> isNilOrZero fv then (g0, None)
                   else if tagName tg \<noteq> [] then injectNamed E oid b (p @ [i]) d tg g0
                   else if isStructKind (fType d) then
                     (if tagPrivate tg then (g0, Some (PrivateInline (fName d)))
                      else if \<not> tagInline tg then (g0, Some (InlineRequired (fName d)))
                      else provideInline b (p @ [i]) d g0)
                   else if isInterfaceKind (fType d) then (g0, None)
                   else if isMapKind (fType d) then
                     (if \<not> tagPrivate tg then (g0, Some (MapMisuse (fName d)))
                      else (setField b (p @ [i]) VMap g0, None))
                   else if \<not> isStructPtr (fType d) then (g0, Some (UnsupportedField (fName d)))
                   else injectPointer E oid b (p @ [i]) d tg g0))"
    using r unfolding explicitField_def d_def cr_def g0_def Let_def by simp
  obtain res where res: "snd cr = Inr res"
    using r' by (cases "snd cr") simp_all
  have c0: "tagCache g0 (fTag d) = Some res"
    using parseTagCached_cached[of "unquoteEsc E" "tagCache g" "fTag d" res] res
    by (simp add: g0_def cr_def)
  have c': "tagCache g' (fTag d) = Some res"
    using touches_cache_grows[OF steps] c0 by (auto simp: map_le_def dom_def)
  show ?thesis
  proof (cases res)
    case None
    then show ?thesis using c' by (simp add: settled_def d_def)
  next
    case (Some tg)
    have ex: "fExported d"
      using r' res Some by (cases "fExported d") simp_all
    show ?thesis
    proof (cases "tagName tg \<noteq> [] \<and> isInterfaceKind (fType d)")
      case False
      then show ?thesis using c' Some ex by (auto simp: settled_def d_def)
    next
      case True
      obtain fv where fv: "load (heap g0) b (p @ [i]) = Some fv"
        using r' res Some by (cases "load (heap g0) b (p @ [i])") (simp_all split: if_splits)
      have "nonZeroAt (heap g') b (p @ [i])"
      proof (cases "isNilOrZero fv")
        case False
        then have "nonZeroAt (heap g0) b (p @ [i])" using fv by (simp add: nonZeroAt_def)
        then show ?thesis using touches_nonZeroAt[OF steps] by simp
      next
        case z: True
        have "(g', None) = injectNamed E oid b (p @ [i]) d tg g0"
          using r' res Some fv z True by (auto split: if_splits)
        then have "injectNamed E oid b (p @ [i]) d tg g0 = (g', None)" by simp
        from injectNamed_iface_result[OF this _ fv] True show ?thesis by simp
      qed
      then show ?thesis using c' Some ex by (simp add: settled_def d_def)
    qed
  qed
qed

lemma forEach_explicit_settles:
  assumes so: "structOf (objs g ! oid) = Some (b, p, n)" and lt: "oid < length (objs g)"
    and r: "forEach (explicitField E oid b p n) xs g = (g', None)"
  shows "\<forall>i \<in> set xs. settled E g' b p n i"
  using assms
proof (induction xs arbitrary: g)
  case Nil
  then show ?case by simp
next
  case (Cons x xs)
  obtain g1 r1 where f: "explicitField E oid b p n x g = (g1, r1)"
    by (cases "explicitField E oid b p n x g")
  have r1: "r1 = None" using Cons.prems(3) f by (cases r1) simp_all
  have rest: "forEach (explicitField E oid b p n) xs g1 = (g', None)"
    using Cons.prems(3) f r1 by simp
  have t1: "(touch oid)\<^sup>*\<^sup>* g g1" using touches_explicitField[OF Cons.prems(1,2) f] .
  have ext: "extends g g1" using touches_extends[OF t1] .
  have so1: "structOf (objs g1 ! oid) = Some (b, p, n)"
    using structOf_extends[OF ext Cons.prems(2)] Cons.prems(1) by simp
  have lt1: "oid < length (objs g1)" using ext Cons.prems(2) by (simp add: extends_def)
  have sx: "settled E g1 b p n x" using explicitField_settles[OF Cons.prems(1,2)] f r1 by simp
  have t2: "(touch oid)\<^sup>*\<^sup>* g1 g'"
    by (rule touches_forEach[OF _ so1 lt1 rest]) (rule touches_explicitField)
  have "settled E g' b p n x" using touches_settled[OF t2 sx] .
  then show ?case using Cons.IH[OF so1 lt1 rest] by simp
qed

lemma populateExplicit_done:
  assumes lt: "oid < length (objs g)" and r: "populateExplicit E oid g = (g', None)"
  shows "objDone E g' oid"
proof -
  have ext: "extends g g'" using touches_extends[OF touches_populateExplicit[OF lt r]] .
  have sb: "sameButFields (objs g ! oid) (objs g' ! oid)" using ext lt by (simp add: extends_def)
  show ?thesis
  proof (cases "ignoredNamedValue (objs g ! oid)")
    case (Inl e)
    then show ?thesis using r by (simp add: populateExplicit_def)
  next
    case (Inr skip)
    show ?thesis
    proof (cases skip)
      case True
      then show ?thesis using Inr ignoredNamedValue_same[OF sb] by (simp add: objDone_def)
    next
      case False
      show ?thesis
      proof (cases "structOf (objs g ! oid)")
        case None
        then show ?thesis using r Inr False by (simp add: populateExplicit_def)
      next
        case (Some a)
        obtain b p n where a: "a = (b, p, n)" by (cases a)
        have fe: "forEach (explicitField E oid b p n) [0..<length (fieldsOf E n)] g = (g', None)"
          using r Inr False Some a by (simp add: populateExplicit_def)
        have "\<forall>i < length (fieldsOf E n). settled E g' b p n i"
          using forEach_explicit_settles[OF Some[unfolded a] lt fe] by simp
        then show ?thesis
          using structOf_same[OF sb] ignoredNamedValue_same[OF sb] Some a Inr False
          by (simp add: objDone_def)
      qed
    qed
  qed
qed

lemma visit_explicit_done:
  assumes lt: "oid < length (objs g)" and r: "visit (populateExplicit E) oid g = (g', None)"
  shows "objDone E g' oid"
proof (cases "Complete (objs g ! oid)")
  case True
  then show ?thesis using r by (simp add: visit_def objDone_def)
next
  case False
  then have "populateExplicit E oid g = (g', None)" using r by (simp add: visit_def)
  from populateExplicit_done[OF lt this] show ?thesis .
qed

lemma forEach_visit_explicit_done:
  assumes "idsValid g" "\<forall>j \<in> set ids. inGraph g j"
    "forEach (visit (populateExplicit E)) ids g = (g', None)"
  shows "\<forall>j \<in> set ids. objDone E g' j"
  using assms
proof (induction ids arbitrary: g)
  case Nil
  then show ?case by simp
next
  case (Cons j ids)
  obtain g1 r1 where v: "visit (populateExplicit E) j g = (g1, r1)"
    by (cases "visit (populateExplicit E) j g")
  have r1: "r1 = None" using Cons.prems(3) v by (cases r1) simp_all
  have rest: "forEach (visit (populateExplicit E)) ids g1 = (g', None)"
    using Cons.prems(3) v r1 by simp
  have jl: "j < length (objs g)" using Cons.prems(1,2) by (simp add: idsValid_def)
  have dj: "objDone E g1 j" using visit_explicit_done[OF jl] v r1 by simp
  have run1: "run g g1"
    by (rule run_visit[OF _ Cons.prems(1) _ v]) (use Cons.prems(2) in \<open>auto intro: touches_populateExplicit\<close>)
  have iv1: "idsValid g1" using run_idsValid[OF run1 Cons.prems(1)] .
  have ig1: "\<forall>k \<in> set ids. inGraph g1 k" using Cons.prems(2) run_inGraph[OF run1] by simp
  have run2: "run g1 g'"
    by (rule run_forEach_visit[OF _ iv1 ig1 rest]) (rule touches_populateExplicit)
  have "j < length (objs g1)" using run_extends[OF run1] jl by (simp add: extends_def)
  from run_objDone[OF run2 this dj] Cons.IH[OF iv1 ig1 rest] show ?case by simp
qed

lemma worklist_done:
  assumes "worklist E fuel i g = Some (g', None)" "idsValid g" "i \<le> length (unnamed g)"
    "\<forall>k < i. objDone E g (unnamed g ! k)"
  shows "\<forall>k < length (unnamed g'). objDone E g' (unnamed g' ! k)"
  using assms
proof (induction fuel arbitrary: i g)
  case 0
  then show ?case by (simp add: worklist.simps split: if_splits)
next
  case (Suc fuel)
  show ?case
  proof (cases "i = length (unnamed g)")
    case True
    then show ?thesis using Suc.prems by (simp add: worklist.simps)
  next
    case False
    then have lt: "i < length (unnamed g)" using Suc.prems(3) by simp
    let ?j = "unnamed g ! i"
    obtain g1 r1 where v: "visit (populateExplicit E) ?j g = (g1, r1)"
      by (cases "visit (populateExplicit E) ?j g")
    have r1: "r1 = None" using Suc.prems(1) False v by (cases r1) (simp_all add: worklist.simps)
    have w: "worklist E fuel (Suc i) g1 = Some (g', None)"
      using Suc.prems(1) False v r1 by (simp add: worklist.simps)
    have ig: "inGraph g ?j" using lt by (simp add: inGraph_def)
    have jl: "?j < length (objs g)" using Suc.prems(2) ig by (simp add: idsValid_def)
    have run1: "run g g1"
      by (rule run_visit[OF _ Suc.prems(2) ig v]) (rule touches_populateExplicit)
    have iv1: "idsValid g1" using run_idsValid[OF run1 Suc.prems(2)] .
    obtain us where us: "unnamed g1 = unnamed g @ us" using run_unnamed_grows[OF run1] by blast
    have le1: "Suc i \<le> length (unnamed g1)" using us lt by simp
    have dj: "objDone E g1 ?j" using visit_explicit_done[OF jl] v r1 by simp
    have "objDone E g1 (unnamed g1 ! k)" if "k < Suc i" for k
    proof (cases "k = i")
      case True
      then show ?thesis using dj us lt by (simp add: nth_append)
    next
      case False
      then have k: "k < i" using that by simp
      then have kk: "unnamed g1 ! k = unnamed g ! k" using us lt by (simp add: nth_append)
      have "inGraph g (unnamed g ! k)" using k lt by (simp add: inGraph_def)
      then have "unnamed g ! k < length (objs g)" using Suc.prems(2) by (simp add: idsValid_def)
      from run_objDone[OF run1 this] Suc.prems(4) k kk show ?thesis by simp
    qed
    then have "\<forall>k < Suc i. objDone E g1 (unnamed g1 ! k)" by blast
    from Suc.IH[OF w iv1 le1 this] show ?thesis .
  qed
qed

lemma namedObjects_covers:
  "named g k = Some j \<Longrightarrow> k \<in> set ks \<Longrightarrow> j \<in> set (namedObjects (named g) ks)"
  by (induction ks) (auto split: option.splits)

lemma phase1_done:
  assumes p: "phase1 E ks fuel g = Some (g', None)" and iv: "idsValid g"
    and ks: "dom (named g) \<subseteq> set ks"
  shows "\<forall>j. inGraph g' j \<longrightarrow> objDone E g' j"
proof -
  let ?ids = "namedObjects (named g) ks"
  obtain g1 r1 where f: "forEach (visit (populateExplicit E)) ?ids g = (g1, r1)"
    by (cases "forEach (visit (populateExplicit E)) ?ids g")
  have r1: "r1 = None" using p f by (cases r1) (simp_all add: phase1_def)
  have w: "worklist E fuel 0 g1 = Some (g', None)" using p f r1 by (simp add: phase1_def)
  have ig: "\<forall>j \<in> set ?ids. inGraph g j" by (auto intro: namedObjects_inGraph)
  have d1: "\<forall>j \<in> set ?ids. objDone E g1 j"
    using forEach_visit_explicit_done[OF iv ig] f r1 by simp
  have run1: "run g g1"
    by (rule run_forEach_visit[OF _ iv ig f]) (rule touches_populateExplicit)
  have iv1: "idsValid g1" using run_idsValid[OF run1 iv] .
  have run2: "run g1 g'" using run_worklist[OF w iv1] by simp
  have un: "\<forall>k < length (unnamed g'). objDone E g' (unnamed g' ! k)"
    using worklist_done[OF w iv1] by simp
  have nm: "named g' = named g" using run_named[OF run2] run_named[OF run1] by simp
  show ?thesis
  proof (intro allI impI)
    fix j assume "inGraph g' j"
    then consider "j \<in> set (unnamed g')" | "j \<in> ran (named g)"
      using nm by (auto simp: inGraph_def)
    then show "objDone E g' j"
    proof cases
      case 1
      then show ?thesis using un by (auto simp: in_set_conv_nth)
    next
      case 2
      then obtain k where k: "named g k = Some j" by (auto simp: ran_def)
      then have "k \<in> set ks" using ks by auto
      then have jm: "j \<in> set ?ids" using namedObjects_covers[OF k] by simp
      have "inGraph g1 j" using run_inGraph[OF run1] k by (auto simp: inGraph_def ran_def)
      then have "j < length (objs g1)" using iv1 by (simp add: idsValid_def)
      from run_objDone[OF run2 this] d1 jm show ?thesis by simp
    qed
  qed
qed

section \<open>Phase 2 after phase 1\<close>

lemma scanInterface_no_goPanic:
  assumes "scanOk g ids" "fExported d" "snd (scanInterface E oid b q d ids None g) = Some e"
  shows "\<not> goPanic e"
  using assms(3) unfolding scanInterface_none[OF assms(1,2)]
  by (auto simp: goPanic_def split: list.splits)

lemma interfaceField_no_goPanic:
  assumes st: "settled E g b p n i" and ok: "scanOk g (unnamed g)"
    and r: "snd (interfaceField E oid b p n i g) = Some e"
  shows "\<not> goPanic e"
proof -
  let ?d = "fieldsOf E n ! i"
  obtain res where c: "tagCache g (fTag ?d) = Some res"
    using st by (auto simp: settled_def split: option.splits)
  have cr: "parseTagCached (unquoteEsc E) (tagCache g) (fTag ?d) = (tagCache g, Inr res)"
    using c by (rule parseTagCached_hit[of "tagCache g" "fTag ?d" res "unquoteEsc E"])
  show ?thesis
  proof (cases res)
    case None
    then show ?thesis using cr r by (simp add: interfaceField_def Let_def)
  next
    case (Some tg)
    have ex: "fExported ?d" using st c Some by (simp add: settled_def)
    show ?thesis
    proof (cases "isInterfaceKind (fType ?d) \<and> \<not> tagPrivate tg")
      case False
      then show ?thesis using cr Some r
        by (auto simp: interfaceField_def Let_def goPanic_def split: if_splits)
    next
      case True
      show ?thesis
      proof (cases "load (heap g) b (p @ [i])")
        case None
        then show ?thesis using cr Some r True
          by (auto simp: interfaceField_def Let_def goPanic_def)
      next
        case (Some fv)
        show ?thesis
        proof (cases "isNilOrZero fv")
          case False
          then show ?thesis using cr \<open>res = Some tg\<close> r True Some
            by (simp add: interfaceField_def Let_def)
        next
          case z: True
          have "\<not> nonZeroAt (heap g) b (p @ [i])" using Some z by (simp add: nonZeroAt_def)
          then have nn: "tagName tg = []"
            using st c \<open>res = Some tg\<close> True by (auto simp: settled_def)
          have "interfaceField E oid b p n i g
              = scanInterface E oid b (p @ [i]) ?d (unnamed g) None g"
            using cr \<open>res = Some tg\<close> True Some z nn by (simp add: interfaceField_def Let_def)
          then show ?thesis using scanInterface_no_goPanic[OF ok ex] r by simp
        qed
      qed
    qed
  qed
qed

lemma touches_graphOk: "(touch oid)\<^sup>*\<^sup>* g g' \<Longrightarrow> graphOk g \<Longrightarrow> graphOk g'"
  by (induction rule: rtranclp_induct) (auto intro: touch_graphOk)

lemma graphOk_scanOk: "graphOk g \<Longrightarrow> scanOk g (unnamed g)"
  by (simp add: graphOk_def scanOk_unnamed)

lemma forEach_interface_no_goPanic:
  assumes so: "structOf (objs g ! oid) = Some (b, p, n)" and lt: "oid < length (objs g)"
    and st: "\<forall>i \<in> set xs. settled E g b p n i" and ok: "graphOk g"
    and r: "snd (forEach (interfaceField E oid b p n) xs g) = Some e"
  shows "\<not> goPanic e"
  using assms
proof (induction xs arbitrary: g)
  case Nil
  then show ?case by simp
next
  case (Cons x xs)
  obtain g1 r1 where f: "interfaceField E oid b p n x g = (g1, r1)"
    by (cases "interfaceField E oid b p n x g")
  show ?case
  proof (cases r1)
    case (Some e1)
    then have "e1 = e" using Cons.prems(5) f by simp
    moreover have "snd (interfaceField E oid b p n x g) = Some e1" using f Some by simp
    ultimately have "snd (interfaceField E oid b p n x g) = Some e" by simp
    moreover have "settled E g b p n x" using Cons.prems(3) by simp
    ultimately show ?thesis
      using interfaceField_no_goPanic[OF _ graphOk_scanOk[OF Cons.prems(4)]] by blast
  next
    case None
    have t1: "(touch oid)\<^sup>*\<^sup>* g g1" using touches_interfaceField[OF Cons.prems(1) f] .
    have ext: "extends g g1" using touches_extends[OF t1] .
    have so1: "structOf (objs g1 ! oid) = Some (b, p, n)"
      using structOf_extends[OF ext Cons.prems(2)] Cons.prems(1) by simp
    have lt1: "oid < length (objs g1)" using ext Cons.prems(2) by (simp add: extends_def)
    have st1: "\<forall>i \<in> set xs. settled E g1 b p n i"
      using Cons.prems(3) touches_settled[OF t1] by simp
    have ok1: "graphOk g1" using touches_graphOk[OF t1 Cons.prems(4)] .
    have "snd (forEach (interfaceField E oid b p n) xs g1) = Some e"
      using Cons.prems(5) f None by simp
    from Cons.IH[OF so1 lt1 st1 ok1 this] show ?thesis .
  qed
qed

lemma populateUnnamedInterface_no_goPanic:
  assumes d: "objDone E g oid" and nc: "\<not> Complete (objs g ! oid)" and lt: "oid < length (objs g)"
    and ok: "graphOk g" and r: "snd (populateUnnamedInterface E oid g) = Some e"
  shows "\<not> goPanic e"
proof (cases "ignoredNamedValue (objs g ! oid) = Inr True")
  case True
  then show ?thesis using r by (simp add: populateUnnamedInterface_def)
next
  case False
  then have nv: "ignoredNamedValue (objs g ! oid) = Inr False" using d nc by (simp add: objDone_def)
  obtain b p n where a: "structOf (objs g ! oid) = Some (b, p, n)"
    using d nc False by (cases "structOf (objs g ! oid)") (auto simp: objDone_def)
  have st: "\<forall>i \<in> set [0..<length (fieldsOf E n)]. settled E g b p n i"
    using d nc False a by (simp add: objDone_def)
  have "snd (forEach (interfaceField E oid b p n) [0..<length (fieldsOf E n)] g) = Some e"
    using r nv a by (simp add: populateUnnamedInterface_def)
  from forEach_interface_no_goPanic[OF a lt st ok this] show ?thesis .
qed

lemma forEach_visit_interface_no_goPanic:
  assumes "idsValid g" "graphOk g" "\<forall>j \<in> set ids. inGraph g j \<and> objDone E g j"
    "snd (forEach (visit (populateUnnamedInterface E)) ids g) = Some e"
  shows "\<not> goPanic e"
  using assms
proof (induction ids arbitrary: g)
  case Nil
  then show ?case by simp
next
  case (Cons j ids)
  obtain g1 r1 where v: "visit (populateUnnamedInterface E) j g = (g1, r1)"
    by (cases "visit (populateUnnamedInterface E) j g")
  have jl: "j < length (objs g)" using Cons.prems(1,3) by (simp add: idsValid_def)
  show ?case
  proof (cases r1)
    case (Some e1)
    then have e1: "e1 = e" using Cons.prems(4) v by simp
    have nc: "\<not> Complete (objs g ! j)" using v Some by (auto simp: visit_def split: if_splits)
    then have "snd (populateUnnamedInterface E j g) = Some e" using v Some e1 by (simp add: visit_def)
    from populateUnnamedInterface_no_goPanic[OF _ nc jl Cons.prems(2) this] Cons.prems(3)
    show ?thesis by simp
  next
    case None
    have run1: "run g g1"
      by (rule run_visit[OF _ Cons.prems(1) _ v])
         (use Cons.prems(3) in \<open>auto intro: touches_populateUnnamedInterface\<close>)
    have iv1: "idsValid g1" using run_idsValid[OF run1 Cons.prems(1)] .
    have ok1: "graphOk g1" using run_graphOk[OF run1 Cons.prems(2)] .
    have "inGraph g1 k \<and> objDone E g1 k" if "k \<in> set ids" for k
    proof -
      have ig: "inGraph g k" and dk: "objDone E g k" using Cons.prems(3) that by simp_all
      have "k < length (objs g)" using Cons.prems(1) ig by (simp add: idsValid_def)
      from run_objDone[OF run1 this dk] run_inGraph[OF run1 ig] show ?thesis by simp
    qed
    then have all: "\<forall>k \<in> set ids. inGraph g1 k \<and> objDone E g1 k" by blast
    have "snd (forEach (visit (populateUnnamedInterface E)) ids g1) = Some e"
      using Cons.prems(4) v None by simp
    from Cons.IH[OF iv1 ok1 all this] show ?thesis .
  qed
qed

text \<open>C9. When phase 1 (every named object, in whatever order the runtime walks the map,
  then every unnamed object, those created on the way included) returns no error on a
  well-formed graph, phase 2 does not reach the branch that panics on a named directive:
  every interface field with a named directive of every object that phase 2 looks into
  is not zero by then. Nor does phase 2 raise any other panic of Go: whatever it returns
  is nil or one of its errors.\<close>

theorem phase2_named_branch_unreachable:
  assumes "phase1 E ks1 fuel g = Some (g1, None)" and "idsValid g" and "graphOk g"
    and "dom (named g) \<subseteq> set ks1"
  shows "snd (phase2 E ks2 g1) \<noteq> Some (UnhandledNamed nm)
     \<and> (\<forall>e. snd (phase2 E ks2 g1) = Some e \<longrightarrow> \<not> goPanic e)"
proof -
  have dn: "\<forall>j. inGraph g1 j \<longrightarrow> objDone E g1 j" using phase1_done[OF assms(1,2,4)] .
  have run1: "run g g1" using run_phase1[OF assms(1,2)] .
  have iv1: "idsValid g1" using run_idsValid[OF run1 assms(2)] .
  have ok1: "graphOk g1" using run_graphOk[OF run1 assms(3)] .
  obtain g2 r2 where f: "forEach (visit (populateUnnamedInterface E)) (unnamed g1) g1 = (g2, r2)"
    by (cases "forEach (visit (populateUnnamedInterface E)) (unnamed g1) g1")
  have ig: "\<forall>j \<in> set (unnamed g1). inGraph g1 j \<and> objDone E g1 j"
    using dn by (simp add: inGraph_def)
  have main: "\<not> goPanic e" if e: "snd (phase2 E ks2 g1) = Some e" for e
  proof (cases r2)
    case (Some e2)
    then have "snd (forEach (visit (populateUnnamedInterface E)) (unnamed g1) g1) = Some e"
      using f e by (simp add: phase2_def)
    from forEach_visit_interface_no_goPanic[OF iv1 ok1 ig this] show ?thesis .
  next
    case None
    have run2: "run g1 g2"
      by (rule run_forEach_visit[OF _ iv1 _ f])
         (auto intro: touches_populateUnnamedInterface simp: inGraph_def)
    have iv2: "idsValid g2" using run_idsValid[OF run2 iv1] .
    have ok2: "graphOk g2" using run_graphOk[OF run2 ok1] .
    have "inGraph g2 k \<and> objDone E g2 k" if "k \<in> set (namedObjects (named g2) ks2)" for k
    proof -
      have ig2: "inGraph g2 k" using namedObjects_inGraph[OF that] .
      then have "inGraph g1 k"
        using run_named[OF run2] namedObjects_inGraph[of k g1 ks2] that by simp
      then have "k < length (objs g1)" "objDone E g1 k" using iv1 dn by (simp_all add: idsValid_def)
      from run_objDone[OF run2 this] ig2 show ?thesis by simp
    qed
    then have all: "\<forall>k \<in> set (namedObjects (named g2) ks2). inGraph g2 k \<and> objDone E g2 k"
      by blast
    have "snd (forEach (visit (populateUnnamedInterface E)) (namedObjects (named g2) ks2) g2) = Some e"
      using f None e by (simp add: phase2_def)
    from forEach_visit_interface_no_goPanic[OF iv2 ok2 all this] show ?thesis .
  qed
  have "snd (phase2 E ks2 g1) \<noteq> Some (UnhandledNamed nm)"
    using main[of "UnhandledNamed nm"] by (auto simp: goPanic_def)
  then show ?thesis using main by blast
qed

theorem phase2_named_branch_unreachable_witness:
  "idsValid exGraph8 \<and> graphOk exGraph8 \<and> dom (named exGraph8) \<subseteq> set [''impl'']
   \<and> (\<exists>g1. phase1 exEnv [''impl''] exFuel exGraph8 = Some (g1, None)
         \<and> load (heap g1) 0 [0] = Some (VIface (TPtr (TStruct ''A'')) (VPtr 1 []))
         \<and> snd (phase2 exEnv [''impl''] g1) \<noteq> Some (UnhandledNamed ''impl'')
         \<and> snd (phase2 exEnv [''impl''] g1) \<noteq> Some NilDereference)"
proof -
  have iv: "idsValid exGraph8" and ok: "graphOk exGraph8"
    unfolding exGraph8_def by (rule provideCalls_wellformed)+
  have ks: "dom (named exGraph8) \<subseteq> set [''impl'']"
    by (simp add: exGraph8_def provide1_def newObject_def emptyGraph_def)
  have "\<exists>g1. phase1 exEnv [''impl''] exFuel exGraph8 = Some (g1, None)
        \<and> load (heap g1) 0 [0] = Some (VIface (TPtr (TStruct ''A'')) (VPtr 1 []))"
    by (simp add: exGraph8_def ex_defs)
  then obtain g1 where p: "phase1 exEnv [''impl''] exFuel exGraph8 = Some (g1, None)"
    and l: "load (heap g1) 0 [0] = Some (VIface (TPtr (TStruct ''A'')) (VPtr 1 []))" by blast
  note th = phase2_named_branch_unreachable [OF p iv ok ks, of "[''impl'']" "''impl''"]
  have a: "snd (phase2 exEnv [''impl''] g1) \<noteq> Some (UnhandledNamed ''impl'')"
    using th by blast
  have "\<not> goPanic e" if "snd (phase2 exEnv [''impl''] g1) = Some e" for e
    using th that by blast
  then have b: "snd (phase2 exEnv [''impl''] g1) \<noteq> Some NilDereference"
    by (auto simp: goPanic_def)
  from iv ok ks p l a b show ?thesis by blast
qed

end
